theory Spec2Isabelle
  imports Complex_Main "HOL-Library.Char_ord"
begin

section \<open>The TinyLLM character model of \<^verbatim>\<open>minillm/model.py\<close>\<close>

text \<open>
  The embedding follows \<^verbatim>\<open>src/minillm/model.py\<close> function by function.
  \<^item> Python \<^verbatim>\<open>int\<close> arguments (\<^verbatim>\<open>context\<close>, \<^verbatim>\<open>embed_dim\<close>, \<^verbatim>\<open>hidden_dim\<close>, \<^verbatim>\<open>epochs\<close>,
    \<^verbatim>\<open>report_every\<close>, \<^verbatim>\<open>max_new\<close>) are \<open>int\<close>; \<^verbatim>\<open>range(n)\<close> is \<open>[0..<nat n]\<close>, empty for
    \<open>n \<le> 0\<close> as in Python. Vocabulary indices and loop counters, which Python only ever
    produces from \<^verbatim>\<open>enumerate\<close> and \<^verbatim>\<open>range\<close>, are \<open>nat\<close>.
  \<^item> Python \<^verbatim>\<open>float\<close> is embedded as \<open>real\<close>: rounding, overflow and NaN are outside the model.
  \<^item> A Python \<^verbatim>\<open>str\<close> is a \<open>string\<close>; characters are ordered by code point (\<open>Char_ord\<close>).
  \<^item> Every \<^verbatim>\<open>raise\<close>, failed subscript, failed dictionary lookup and division by zero is
    a value \<open>Inl e\<close> of the result type \<open>error + 'a\<close>.
  \<^item> In-place mutation of lists is explicit state passing; the lists the source mutates
    are never shared (\<^verbatim>\<open>zeros\<close> builds fresh rows, gradients are copied with \<^verbatim>\<open>[:]\<close>).
\<close>

subsection \<open>Errors and Python primitives\<close>

text \<open>
  \<open>InvalidConfiguration\<close> is the \<^verbatim>\<open>ValueError\<close> raised by \<^verbatim>\<open>__init__\<close>, \<open>InvalidInput\<close> the
  \<^verbatim>\<open>ValueError\<close> raised by \<^verbatim>\<open>predict_next\<close>, \<open>EmptySequence\<close> the \<^verbatim>\<open>ValueError\<close> of \<^verbatim>\<open>max\<close> on
  an empty sequence, \<open>MathDomain\<close> the \<^verbatim>\<open>ValueError\<close> of \<^verbatim>\<open>math.log\<close> outside its domain.
\<close>

datatype error =
    InvalidConfiguration
  | InvalidInput
  | KeyError
  | IndexError
  | ZeroDivisionError
  | EmptySequence
  | MathDomain

type_synonym Vector = "real list"
type_synonym Matrix = "real list list"

definition ebind :: "error + 'a \<Rightarrow> ('a \<Rightarrow> error + 'b) \<Rightarrow> error + 'b" where
  "ebind r f = (case r of Inl e \<Rightarrow> Inl e | Inr x \<Rightarrow> f x)"

text \<open>A \<^verbatim>\<open>for\<close> loop over a sequence whose body may raise; \<open>s\<close> is the mutated state.\<close>

fun for_each :: "'a list \<Rightarrow> ('a \<Rightarrow> 's \<Rightarrow> error + 's) \<Rightarrow> 's \<Rightarrow> error + 's" where
  "for_each [] f s = Inr s"
| "for_each (x # xs) f s = (case f x s of Inl e \<Rightarrow> Inl e | Inr s' \<Rightarrow> for_each xs f s')"

text \<open>A list comprehension whose element expression may raise.\<close>

fun map_err :: "('a \<Rightarrow> error + 'b) \<Rightarrow> 'a list \<Rightarrow> error + 'b list" where
  "map_err f [] = Inr []"
| "map_err f (x # xs) =
     (case f x of Inl e \<Rightarrow> Inl e
      | Inr y \<Rightarrow> (case map_err f xs of Inl e \<Rightarrow> Inl e | Inr ys \<Rightarrow> Inr (y # ys)))"

text \<open>\<^verbatim>\<open>xs[i]\<close> and \<^verbatim>\<open>xs[i] = v\<close> for a non-negative index.\<close>

definition getitem :: "'a list \<Rightarrow> nat \<Rightarrow> error + 'a" where
  "getitem xs i = (if i < length xs then Inr (xs ! i) else Inl IndexError)"

definition setitem :: "'a list \<Rightarrow> nat \<Rightarrow> 'a \<Rightarrow> error + 'a list" where
  "setitem xs i v = (if i < length xs then Inr (xs[i := v]) else Inl IndexError)"

text \<open>\<^verbatim>\<open>M[i][j]\<close>, and the in-place update \<^verbatim>\<open>M[i][j] = f(M[i][j])\<close> where \<open>f\<close> may raise.\<close>

definition getitem2 :: "'a list list \<Rightarrow> nat \<Rightarrow> nat \<Rightarrow> error + 'a" where
  "getitem2 M i j = ebind (getitem M i) (\<lambda>row. getitem row j)"

definition update :: "'a list \<Rightarrow> nat \<Rightarrow> ('a \<Rightarrow> error + 'a) \<Rightarrow> error + 'a list" where
  "update xs i f = ebind (getitem xs i) (\<lambda>x. ebind (f x) (\<lambda>y. setitem xs i y))"

definition update2 :: "'a list list \<Rightarrow> nat \<Rightarrow> nat \<Rightarrow> ('a \<Rightarrow> error + 'a) \<Rightarrow> error + 'a list list" where
  "update2 M i j f = ebind (getitem M i) (\<lambda>row. ebind (update row j f) (\<lambda>row'. setitem M i row'))"

text \<open>
  Python subscripts and slices with a signed index: a negative index counts from the end,
  a subscript out of range raises, slice bounds are clamped.
\<close>

definition py_index :: "'a list \<Rightarrow> int \<Rightarrow> error + 'a" where
  "py_index xs k =
     (let n = int (length xs); j = (if k < 0 then k + n else k)
      in if 0 \<le> j \<and> j < n then Inr (xs ! nat j) else Inl IndexError)"

definition slice_bound :: "nat \<Rightarrow> int \<Rightarrow> nat" where
  "slice_bound n k = (if k < 0 then nat (max 0 (k + int n)) else min (nat k) n)"

definition py_slice :: "'a list \<Rightarrow> int \<Rightarrow> int \<Rightarrow> 'a list" where
  "py_slice xs a b =
     (let lo = slice_bound (length xs) a; hi = slice_bound (length xs) b
      in take (hi - lo) (drop lo xs))"

definition py_slice_from :: "'a list \<Rightarrow> int \<Rightarrow> 'a list" where
  "py_slice_from xs a = drop (slice_bound (length xs) a) xs"

definition rjust :: "string \<Rightarrow> int \<Rightarrow> string" where
  "rjust s width = replicate (nat (width - int (length s))) (CHR '' '') @ s"

definition lookup :: "('k \<rightharpoonup> 'v) \<Rightarrow> 'k \<Rightarrow> error + 'v" where
  "lookup d k = (case d k of None \<Rightarrow> Inl KeyError | Some v \<Rightarrow> Inr v)"

definition truediv :: "real \<Rightarrow> real \<Rightarrow> error + real" where
  "truediv a b = (if b = 0 then Inl ZeroDivisionError else Inr (a / b))"

definition math_log :: "real \<Rightarrow> error + real" where
  "math_log x = (if x \<le> 0 then Inl MathDomain else Inr (ln x))"

subsection \<open>Module-level helpers\<close>

definition zeros :: "int \<Rightarrow> int \<Rightarrow> Matrix" where
  "zeros rows cols = replicate (nat rows) (replicate (nat cols) 0)"

text \<open>
  \<^verbatim>\<open>random_matrix\<close> draws from the process-wide generator. The generator is a parameter:
  \<open>rnd k\<close> is the \<open>k\<close>-th value \<^verbatim>\<open>random.random()\<close> returns after seeding, and
  \<^verbatim>\<open>random.uniform(a, b)\<close> is \<^verbatim>\<open>a + (b - a) * random()\<close>. The matrix is filled row by row
  starting at draw \<open>k\<close>, and uses \<open>rows * cols\<close> draws.
\<close>

definition uniform :: "(nat \<Rightarrow> real) \<Rightarrow> nat \<Rightarrow> real \<Rightarrow> real \<Rightarrow> real" where
  "uniform rnd k a b = a + (b - a) * rnd k"

definition random_matrix :: "(nat \<Rightarrow> real) \<Rightarrow> nat \<Rightarrow> int \<Rightarrow> int \<Rightarrow> real \<Rightarrow> Matrix" where
  "random_matrix rnd k rows cols scale =
     map (\<lambda>i. map (\<lambda>j. uniform rnd (k + i * nat cols + j) (- scale) scale) [0..<nat cols])
         [0..<nat rows]"

definition matvec :: "Matrix \<Rightarrow> Vector \<Rightarrow> Vector" where
  "matvec mat vec = map (\<lambda>row. sum_list (map (\<lambda>(m_ij, v_j). m_ij * v_j) (zip row vec))) mat"

fun add_inplace :: "Vector \<Rightarrow> Vector \<Rightarrow> error + Vector" where
  "add_inplace target [] = Inr target"
| "add_inplace [] (val # src) = Inl IndexError"
| "add_inplace (t # target) (val # src) =
     (case add_inplace target src of Inl e \<Rightarrow> Inl e | Inr r \<Rightarrow> Inr ((t + val) # r))"

definition relu :: "Vector \<Rightarrow> Vector" where
  "relu vec = map (\<lambda>v. max 0 v) vec"

definition softmax :: "Vector \<Rightarrow> error + Vector" where
  "softmax vec =
     (if vec = [] then Inl EmptySequence
      else let max_v = Max (set vec);
               exps = map (\<lambda>v. exp (v - max_v)) vec;
               total = sum_list exps
           in map_err (\<lambda>e. truediv e total) exps)"

subsection \<open>The model and its construction\<close>

record dataset =
  inputs :: "nat list list"
  targets :: "nat list"

record model =
  context_size :: int
  embed_dim :: int
  hidden_dim :: int
  learning_rate :: real
  vocab :: string
  stoi :: "char \<rightharpoonup> nat"
  itos :: "nat \<rightharpoonup> char"
  dataset :: dataset
  E :: Matrix
  W1 :: Matrix
  b1 :: Vector
  W2 :: Matrix
  b2 :: Vector

text \<open>
  A dictionary comprehension inserts its items in order, a later item replacing an
  earlier one with the same key.
\<close>

definition dict_of :: "('k \<times> 'v) list \<Rightarrow> ('k \<rightharpoonup> 'v)" where
  "dict_of kvs = fold (\<lambda>(k, v) d. d(k \<mapsto> v)) kvs Map.empty"

definition build_vocab :: "string \<Rightarrow> string \<times> (char \<rightharpoonup> nat) \<times> (nat \<rightharpoonup> char)" where
  "build_vocab text =
     (let vocab = sorted_list_of_set (set text);
          items = map (\<lambda>(i, ch). (ch, i)) (enumerate 0 vocab);
          stoi = dict_of items;
          itos = dict_of (map (\<lambda>(ch, i). (i, ch)) items)
      in (vocab, stoi, itos))"

definition encode :: "(char \<rightharpoonup> nat) \<Rightarrow> string \<Rightarrow> error + nat list" where
  "encode st chars = map_err (lookup st) chars"

text \<open>
  \<^verbatim>\<open>_build_dataset\<close> reads \<^verbatim>\<open>self.context\<close> and \<^verbatim>\<open>self.stoi\<close> of the half-built object; they
  are arguments here. The loop state is the pair of lists it appends to.
\<close>

definition build_dataset_step ::
  "(char \<rightharpoonup> nat) \<Rightarrow> int \<Rightarrow> string \<Rightarrow> nat \<Rightarrow> dataset \<Rightarrow> error + dataset" where
  "build_dataset_step st ctx text i ds =
     (let window = py_slice text (int i) (int i + ctx) in
      ebind (py_index text (int i + ctx)) (\<lambda>target.
      ebind (encode st window) (\<lambda>w.
      ebind (lookup st target) (\<lambda>t.
      Inr \<lparr>inputs = inputs ds @ [w], targets = targets ds @ [t]\<rparr>))))"

definition build_dataset :: "(char \<rightharpoonup> nat) \<Rightarrow> int \<Rightarrow> string \<Rightarrow> error + dataset" where
  "build_dataset st ctx text =
     for_each [0..<nat (int (length text) - ctx)] (build_dataset_step st ctx text)
       \<lparr>inputs = [], targets = []\<rparr>"

text \<open>
  \<^verbatim>\<open>TinyLLM.__init__\<close>. The seed only selects the generator's stream \<open>rnd\<close>. The four
  parameter matrices are drawn in the order \<^verbatim>\<open>E\<close>, \<^verbatim>\<open>W1\<close>, \<^verbatim>\<open>W2\<close>.
\<close>

definition construct ::
  "string \<Rightarrow> int \<Rightarrow> int \<Rightarrow> int \<Rightarrow> real \<Rightarrow> (nat \<Rightarrow> real) \<Rightarrow> error + model" where
  "construct text ctx edim hdim lr rnd =
     (if int (length text) \<le> ctx then Inl InvalidConfiguration
      else case build_vocab text of (vocab', stoi', itos') \<Rightarrow>
        ebind (build_dataset stoi' ctx text) (\<lambda>ds.
          let vocab_size = int (length vocab');
              input_dim = ctx * edim;
              k1 = nat vocab_size * nat edim;
              k2 = k1 + nat hdim * nat input_dim
          in Inr \<lparr>context_size = ctx, embed_dim = edim, hidden_dim = hdim,
                  learning_rate = lr, vocab = vocab', stoi = stoi', itos = itos',
                  dataset = ds,
                  E = random_matrix rnd 0 vocab_size edim 0.5,
                  W1 = random_matrix rnd k1 hdim input_dim 0.1,
                  b1 = replicate (nat hdim) 0,
                  W2 = random_matrix rnd k2 vocab_size hdim 0.1,
                  b2 = replicate (nat vocab_size) 0\<rparr>))"

subsection \<open>Forward evaluation\<close>

record cache =
  x_indices :: "nat list"
  x_flat :: Vector
  hidden :: Vector
  hidden_raw :: Vector
  probs :: Vector

text \<open>
  \<^verbatim>\<open>TinyLLM._forward\<close>. \<^verbatim>\<open>add_inplace\<close> mutates \<^verbatim>\<open>hidden_raw\<close> before \<^verbatim>\<open>relu\<close> reads it, so
  the cached \<^verbatim>\<open>hidden_raw\<close> is the pre-activation with the bias added.
\<close>

definition forward :: "model \<Rightarrow> nat list \<Rightarrow> error + Vector \<times> cache" where
  "forward m x_idx =
     ebind (map_err (getitem (E m)) x_idx) (\<lambda>embed_vectors.
     let xf = concat embed_vectors in
     ebind (add_inplace (matvec (W1 m) xf) (b1 m)) (\<lambda>hraw.
     let hid = relu hraw in
     ebind (add_inplace (matvec (W2 m) hid) (b2 m)) (\<lambda>logits.
     ebind (softmax logits) (\<lambda>ps.
     Inr (ps, \<lparr>x_indices = x_idx, x_flat = xf, hidden = hid, hidden_raw = hraw,
                probs = ps\<rparr>)))))"

subsection \<open>Backward pass\<close>

text \<open>The tuple \<^verbatim>\<open>_backward\<close> returns, its components named as the source names them.\<close>

record grads =
  grad_E :: Matrix
  grad_W1 :: Matrix
  grad_b1 :: Vector
  grad_W2 :: Matrix
  grad_b2 :: Vector

text \<open>
  An augmented assignment \<^verbatim>\<open>target op= rhs\<close> on one element: the element is read, the
  right-hand side is evaluated (it may raise), and the combination is stored.
\<close>

definition augment :: "(real \<Rightarrow> real \<Rightarrow> real) \<Rightarrow> error + real \<Rightarrow> real \<Rightarrow> error + real" where
  "augment opr rhs x = ebind rhs (\<lambda>r. Inr (opr x r))"

text \<open>Lines 172--175: the body of the loop nest over \<open>i\<close> and \<open>j\<close> of the output layer.\<close>

definition output_layer_step ::
  "model \<Rightarrow> Vector \<Rightarrow> Vector \<Rightarrow> nat \<Rightarrow> nat \<Rightarrow> Matrix \<times> Vector \<Rightarrow> error + Matrix \<times> Vector" where
  "output_layer_step m grad_logits hid i j s =
     (case s of (gW2, grad_hidden) \<Rightarrow>
        ebind (getitem grad_logits i) (\<lambda>gl.
        ebind (getitem hid j) (\<lambda>h.
        ebind (update2 gW2 i j (\<lambda>_. Inr (gl * h))) (\<lambda>gW2'.
        ebind (update grad_hidden j
                 (augment (+) (ebind (getitem2 (W2 m) i j) (\<lambda>w.
                               ebind (getitem grad_logits i) (\<lambda>gl'. Inr (w * gl'))))))
          (\<lambda>grad_hidden'. Inr (gW2', grad_hidden'))))))"

text \<open>Lines 178--180: the ReLU mask.\<close>

definition relu_backward :: "Vector \<Rightarrow> Vector \<Rightarrow> error + Vector" where
  "relu_backward hraw grad_hidden =
     for_each (enumerate 0 hraw)
       (\<lambda>(j, raw) gh. if raw \<le> 0 then setitem gh j 0 else Inr gh) grad_hidden"

text \<open>Lines 186--189: the body of the loop nest over \<open>j\<close> and \<open>k\<close> of the hidden layer.\<close>

definition hidden_layer_step ::
  "model \<Rightarrow> Vector \<Rightarrow> Vector \<Rightarrow> nat \<Rightarrow> nat \<Rightarrow> Matrix \<times> Vector \<Rightarrow> error + Matrix \<times> Vector" where
  "hidden_layer_step m grad_hidden xf j k s =
     (case s of (gW1, grad_x_flat) \<Rightarrow>
        ebind (getitem grad_hidden j) (\<lambda>gh.
        ebind (getitem xf k) (\<lambda>x.
        ebind (update2 gW1 j k (\<lambda>_. Inr (gh * x))) (\<lambda>gW1'.
        ebind (update grad_x_flat k
                 (augment (+) (ebind (getitem2 (W1 m) j k) (\<lambda>w.
                               ebind (getitem grad_hidden j) (\<lambda>gh'. Inr (w * gh'))))))
          (\<lambda>grad_x_flat'. Inr (gW1', grad_x_flat'))))))"

text \<open>
  Lines 155--189 of \<^verbatim>\<open>_backward\<close>: everything up to the flattened-input gradient. The
  result is \<^verbatim>\<open>(grad_W1, grad_b1, grad_W2, grad_b2, grad_x_flat)\<close>.
\<close>

definition backward_dense ::
  "model \<Rightarrow> cache \<Rightarrow> nat \<Rightarrow> error + Matrix \<times> Vector \<times> Matrix \<times> Vector \<times> Vector" where
  "backward_dense m c target_idx =
     (let vocab_size = length (vocab m);
          input_dim = context_size m * embed_dim m
      in
      ebind (update (probs c) target_idx (augment (-) (Inr 1))) (\<lambda>grad_logits.
      let gb2 = grad_logits in
      ebind (for_each [0..<vocab_size] (\<lambda>i.
               for_each [0..<nat (hidden_dim m)] (output_layer_step m grad_logits (hidden c) i))
               (zeros (int vocab_size) (hidden_dim m), replicate (nat (hidden_dim m)) 0))
        (\<lambda>(gW2, grad_hidden0).
      ebind (relu_backward (hidden_raw c) grad_hidden0) (\<lambda>grad_hidden.
      let gb1 = grad_hidden in
      ebind (for_each [0..<nat (hidden_dim m)] (\<lambda>j.
               for_each [0..<nat input_dim] (hidden_layer_step m grad_hidden (x_flat c) j))
               (zeros (hidden_dim m) input_dim, replicate (nat input_dim) 0))
        (\<lambda>(gW1, grad_x_flat).
      Inr (gW1, gb1, gW2, gb2, grad_x_flat))))))"

text \<open>
  Lines 191--194: the scatter of the flattened-input gradient into embedding rows. Inside
  the inner loop \<^verbatim>\<open>embed_dim\<close> is positive, so the subscript
  \<^verbatim>\<open>pos * self.embed_dim + d\<close> is the natural number \<open>pos * nat (embed_dim m) + d\<close>.
\<close>

definition backward_embedding :: "model \<Rightarrow> nat list \<Rightarrow> Vector \<Rightarrow> error + Matrix" where
  "backward_embedding m xs grad_x_flat =
     for_each (enumerate 0 xs) (\<lambda>(pos, vocab_idx).
       for_each [0..<nat (embed_dim m)] (\<lambda>d gE.
         update2 gE vocab_idx d
           (augment (+) (getitem grad_x_flat (pos * nat (embed_dim m) + d)))))
       (zeros (int (length (vocab m))) (embed_dim m))"

definition backward :: "model \<Rightarrow> cache \<Rightarrow> nat \<Rightarrow> error + grads" where
  "backward m c target_idx =
     ebind (backward_dense m c target_idx) (\<lambda>(gW1, gb1, gW2, gb2, grad_x_flat).
     ebind (backward_embedding m (x_indices c) grad_x_flat) (\<lambda>gE.
     Inr \<lparr>grad_E = gE, grad_W1 = gW1, grad_b1 = gb1, grad_W2 = gW2, grad_b2 = gb2\<rparr>))"

subsection \<open>Training\<close>

text \<open>
  The element-wise loops of \<^verbatim>\<open>_apply_grads\<close> and \<^verbatim>\<open>train\<close> have two shapes: a loop nest
  updating every \<^verbatim>\<open>M[i][j]\<close>, and a loop nest that after each row \<open>i\<close> also updates
  \<^verbatim>\<open>v[i]\<close>.
\<close>

definition mat_loop ::
  "nat \<Rightarrow> nat \<Rightarrow> (nat \<Rightarrow> nat \<Rightarrow> real \<Rightarrow> error + real) \<Rightarrow> Matrix \<Rightarrow> error + Matrix" where
  "mat_loop rows cols f M =
     for_each [0..<rows] (\<lambda>i. for_each [0..<cols] (\<lambda>j M'. update2 M' i j (f i j))) M"

definition mat_vec_loop ::
  "nat \<Rightarrow> nat \<Rightarrow> (nat \<Rightarrow> nat \<Rightarrow> real \<Rightarrow> error + real) \<Rightarrow> (nat \<Rightarrow> real \<Rightarrow> error + real) \<Rightarrow>
   Matrix \<times> Vector \<Rightarrow> error + Matrix \<times> Vector" where
  "mat_vec_loop rows cols f g s =
     for_each [0..<rows] (\<lambda>i (M, v).
       ebind (for_each [0..<cols] (\<lambda>j M'. update2 M' i j (f i j)) M) (\<lambda>M'.
       ebind (update v i (g i)) (\<lambda>v'. Inr (M', v')))) s"

text \<open>\<^verbatim>\<open>TinyLLM._apply_grads\<close>: every parameter element \<^verbatim>\<open>p -= lr * g\<close>.\<close>

definition apply_grads :: "model \<Rightarrow> Matrix \<Rightarrow> Matrix \<Rightarrow> Vector \<Rightarrow> Matrix \<Rightarrow> Vector \<Rightarrow> error + model" where
  "apply_grads m gE gW1 gb1 gW2 gb2 =
     (let lr = learning_rate m;
          descend = (\<lambda>p g. p - lr * g)
      in
      ebind (mat_loop (length (E m)) (nat (embed_dim m))
               (\<lambda>i j. augment descend (getitem2 gE i j)) (E m)) (\<lambda>E'.
      ebind (mat_vec_loop (nat (hidden_dim m)) (nat (context_size m * embed_dim m))
               (\<lambda>i j. augment descend (getitem2 gW1 i j))
               (\<lambda>i. augment descend (getitem gb1 i)) (W1 m, b1 m)) (\<lambda>(W1', b1').
      ebind (mat_vec_loop (length (vocab m)) (nat (hidden_dim m))
               (\<lambda>i j. augment descend (getitem2 gW2 i j))
               (\<lambda>i. augment descend (getitem gb2 i)) (W2 m, b2 m)) (\<lambda>(W2', b2').
      Inr (m\<lparr>E := E', W1 := W1', b1 := b1', W2 := W2', b2 := b2'\<rparr>)))))"

text \<open>
  Lines 236--252: the body of the loop over dataset pairs. The state is the running loss
  and the five gradient accumulators.
\<close>

definition accumulate_sample ::
  "model \<Rightarrow> nat list \<times> nat \<Rightarrow> real \<times> grads \<Rightarrow> error + real \<times> grads" where
  "accumulate_sample m pair s =
     (case pair of (x_idx, target_idx) \<Rightarrow> case s of (total_loss, tot) \<Rightarrow>
        ebind (forward m x_idx) (\<lambda>(ps, c).
        ebind (getitem ps target_idx) (\<lambda>p.
        ebind (math_log (p + 1 / 10 ^ 12)) (\<lambda>l.
        let total_loss' = total_loss + (- l) in
        ebind (backward m c target_idx) (\<lambda>g.
        ebind (mat_loop (length (vocab m)) (nat (embed_dim m))
                 (\<lambda>i j. augment (+) (getitem2 (grad_E g) i j)) (grad_E tot)) (\<lambda>gE'.
        ebind (mat_vec_loop (nat (hidden_dim m)) (nat (context_size m * embed_dim m))
                 (\<lambda>i j. augment (+) (getitem2 (grad_W1 g) i j))
                 (\<lambda>i. augment (+) (getitem (grad_b1 g) i)) (grad_W1 tot, grad_b1 tot))
          (\<lambda>(gW1', gb1').
        ebind (mat_vec_loop (length (vocab m)) (nat (hidden_dim m))
                 (\<lambda>i j. augment (+) (getitem2 (grad_W2 g) i j))
                 (\<lambda>i. augment (+) (getitem (grad_b2 g) i)) (grad_W2 tot, grad_b2 tot))
          (\<lambda>(gW2', gb2').
        Inr (total_loss', \<lparr>grad_E = gE', grad_W1 = gW1', grad_b1 = gb1',
                            grad_W2 = gW2', grad_b2 = gb2'\<rparr>)))))))))"

text \<open>Lines 229--233: the zeroed accumulators an epoch starts from.\<close>

definition zero_grads :: "model \<Rightarrow> grads" where
  "zero_grads m =
     \<lparr>grad_E = zeros (int (length (vocab m))) (embed_dim m),
      grad_W1 = zeros (hidden_dim m) (context_size m * embed_dim m),
      grad_b1 = replicate (nat (hidden_dim m)) 0,
      grad_W2 = zeros (int (length (vocab m))) (hidden_dim m),
      grad_b2 = replicate (length (vocab m)) 0\<rparr>"

text \<open>Lines 255--266: the accumulators multiplied by \<^verbatim>\<open>inv_n\<close>.\<close>

definition average_grads :: "model \<Rightarrow> real \<Rightarrow> grads \<Rightarrow> error + grads" where
  "average_grads m inv_n tot =
     ebind (mat_loop (length (vocab m)) (nat (embed_dim m))
              (\<lambda>i j. augment (*) (Inr inv_n)) (grad_E tot)) (\<lambda>gE'.
     ebind (mat_vec_loop (nat (hidden_dim m)) (nat (context_size m * embed_dim m))
              (\<lambda>i j. augment (*) (Inr inv_n)) (\<lambda>i. augment (*) (Inr inv_n))
              (grad_W1 tot, grad_b1 tot)) (\<lambda>(gW1', gb1').
     ebind (mat_vec_loop (length (vocab m)) (nat (hidden_dim m))
              (\<lambda>i j. augment (*) (Inr inv_n)) (\<lambda>i. augment (*) (Inr inv_n))
              (grad_W2 tot, grad_b2 tot)) (\<lambda>(gW2', gb2').
     Inr \<lparr>grad_E = gE', grad_W1 = gW1', grad_b1 = gb1', grad_W2 = gW2', grad_b2 = gb2'\<rparr>)))"

text \<open>
  Lines 228--270: one pass of the epoch loop up to and including \<^verbatim>\<open>_apply_grads\<close>. It
  returns the updated model and the epoch's loss total.
\<close>

definition train_epoch :: "model \<Rightarrow> error + model \<times> real" where
  "train_epoch m =
     (let num_samples = length (inputs (dataset m)) in
      ebind (for_each (zip (inputs (dataset m)) (targets (dataset m))) (accumulate_sample m)
               (0, zero_grads m)) (\<lambda>(total_loss, tot).
      ebind (truediv 1 (real num_samples)) (\<lambda>inv_n.
      ebind (average_grads m inv_n tot) (\<lambda>avg.
      ebind (apply_grads m (grad_E avg) (grad_W1 avg) (grad_b1 avg) (grad_W2 avg) (grad_b2 avg))
        (\<lambda>m'. Inr (m', total_loss))))))"

text \<open>
  \<^verbatim>\<open>TinyLLM.train\<close>. \<^verbatim>\<open>range(1, epochs + 1)\<close> is \<open>[1..epochs]\<close>. The progress line is
  printed and changes no state; evaluating \<^verbatim>\<open>epoch % report_every\<close> raises when
  \<^verbatim>\<open>report_every\<close> is zero, and otherwise agrees with \<open>mod\<close> on \<open>int\<close>.
\<close>

definition train_report :: "model \<Rightarrow> int \<Rightarrow> int \<Rightarrow> real \<Rightarrow> error + unit" where
  "train_report m report_every epoch total_loss =
     (if report_every = 0 then Inl ZeroDivisionError
      else if epoch mod report_every = 0
        then ebind (truediv total_loss (real (length (inputs (dataset m))))) (\<lambda>avg_loss. Inr ())
        else Inr ())"

definition train :: "model \<Rightarrow> int \<Rightarrow> int \<Rightarrow> error + model" where
  "train m epochs report_every =
     for_each [1..epochs] (\<lambda>epoch m'.
       ebind (train_epoch m') (\<lambda>(m'', total_loss).
       ebind (train_report m'' report_every epoch total_loss) (\<lambda>_. Inr m''))) m"

text \<open>\<^verbatim>\<open>TinyLLM.loss\<close>.\<close>

definition loss :: "model \<Rightarrow> error + real" where
  "loss m =
     ebind (for_each (zip (inputs (dataset m)) (targets (dataset m)))
              (\<lambda>(x_idx, target_idx) total_loss.
                 ebind (forward m x_idx) (\<lambda>(ps, _).
                 ebind (getitem ps target_idx) (\<lambda>p.
                 ebind (math_log (p + 1 / 10 ^ 12)) (\<lambda>l. Inr (total_loss + (- l))))))
              0)
       (\<lambda>total_loss. truediv total_loss (real (length (inputs (dataset m)))))"

subsection \<open>Generation\<close>

text \<open>
  \<^verbatim>\<open>max(iterable, key=...)\<close> keeps the first element whose key no later element exceeds:
  the running maximum is replaced only by a strictly greater key.
\<close>

definition max_key :: "('a \<Rightarrow> real) \<Rightarrow> 'a list \<Rightarrow> error + 'a" where
  "max_key key xs =
     (case xs of [] \<Rightarrow> Inl EmptySequence
      | x # rest \<Rightarrow> Inr (fold (\<lambda>y best. if key best < key y then y else best) rest x))"

definition predict_next :: "model \<Rightarrow> string \<Rightarrow> error + char \<times> Vector" where
  "predict_next m context_text =
     (if int (length context_text) \<noteq> context_size m then Inl InvalidInput
      else
        ebind (encode (stoi m) context_text) (\<lambda>idxs.
        ebind (forward m idxs) (\<lambda>(ps, _).
        ebind (max_key (\<lambda>i. ps ! i) [0..<length ps]) (\<lambda>best.
        ebind (lookup (itos m) best) (\<lambda>ch. Inr (ch, ps))))))"

text \<open>Lines 289--293: the generation loop, \<open>n\<close> iterations left.\<close>

fun sample_loop :: "model \<Rightarrow> nat \<Rightarrow> string \<Rightarrow> error + string" where
  "sample_loop m 0 generated = Inr generated"
| "sample_loop m (Suc n) generated =
     (case predict_next m (py_slice_from generated (- context_size m)) of
        Inl e \<Rightarrow> Inl e
      | Inr (next_ch, ps) \<Rightarrow>
          let generated' = generated @ [next_ch]
          in if next_ch = CHR 0x0A then Inr generated' else sample_loop m n generated')"

definition sample :: "model \<Rightarrow> string \<Rightarrow> int \<Rightarrow> error + string" where
  "sample m seed max_new =
     (let seed1 = (if int (length seed) < context_size m then rjust seed (context_size m)
                   else seed);
          seed2 = py_slice_from seed1 (- context_size m)
      in sample_loop m (nat max_new) seed2)"

subsection \<open>Well-formed models\<close>

text \<open>
  The shape invariant of a model object: what \<^verbatim>\<open>__init__\<close> establishes for a non-negative
  \<^verbatim>\<open>context\<close> and what \<^verbatim>\<open>train\<close> preserves. The vocabulary triple is the one \<^verbatim>\<open>_build_vocab\<close>
  makes of the vocabulary's own characters, every parameter tensor has the shape the
  constructor gave it, and the dataset holds windows of \<^verbatim>\<open>context\<close> valid indices.
\<close>

definition mat_shape :: "'a list list \<Rightarrow> nat \<Rightarrow> nat \<Rightarrow> bool" where
  "mat_shape M rows cols \<longleftrightarrow> length M = rows \<and> (\<forall>row\<in>set M. length row = cols)"

definition wf_model :: "model \<Rightarrow> bool" where
  "wf_model m \<longleftrightarrow>
     0 \<le> context_size m \<and> vocab m \<noteq> [] \<and>
     build_vocab (vocab m) = (vocab m, stoi m, itos m) \<and>
     mat_shape (E m) (length (vocab m)) (nat (embed_dim m)) \<and>
     mat_shape (W1 m) (nat (hidden_dim m)) (nat (context_size m * embed_dim m)) \<and>
     length (b1 m) = nat (hidden_dim m) \<and>
     mat_shape (W2 m) (length (vocab m)) (nat (hidden_dim m)) \<and>
     length (b2 m) = length (vocab m) \<and>
     length (inputs (dataset m)) = length (targets (dataset m)) \<and>
     (\<forall>x\<in>set (inputs (dataset m)).
        length x = nat (context_size m) \<and> (\<forall>v\<in>set x. v < length (vocab m))) \<and>
     (\<forall>t\<in>set (targets (dataset m)). t < length (vocab m))"

subsection \<open>The full-batch step in the specification's words\<close>

text \<open>
  The gradient of the \<open>q\<close>-th dataset pair at the parameters of \<open>m\<close>: the Gradient Engine
  applied to the Forward Evaluator's cache. (Where either fails there is no gradient;
  the zero gradient stands in, and \<open>sample_gradient_backward\<close> below shows that this
  never happens for a well-formed model.)
\<close>

definition sample_gradient :: "model \<Rightarrow> nat \<Rightarrow> grads" where
  "sample_gradient m q =
     (case ebind (forward m (inputs (dataset m) ! q))
             (\<lambda>(ps, c). backward m c (targets (dataset m) ! q)) of
        Inr g \<Rightarrow> g
      | Inl e \<Rightarrow> zero_grads m)"

text \<open>
  The per-sample gradients of the first \<open>k\<close> dataset pairs, summed element by element;
  each tensor has the shape of the parameter tensor it belongs to.
\<close>

definition sum_gradient :: "model \<Rightarrow> nat \<Rightarrow> grads" where
  "sum_gradient m k =
     (let sum_mat = (\<lambda>sel rows cols.
            map (\<lambda>i. map (\<lambda>j. \<Sum>q<k. sel (sample_gradient m q) ! i ! j) [0..<cols]) [0..<rows]);
          sum_vec = (\<lambda>sel len. map (\<lambda>i. \<Sum>q<k. sel (sample_gradient m q) ! i) [0..<len])
      in \<lparr>grad_E = sum_mat grad_E (length (vocab m)) (nat (embed_dim m)),
          grad_W1 = sum_mat grad_W1 (nat (hidden_dim m)) (nat (context_size m * embed_dim m)),
          grad_b1 = sum_vec grad_b1 (nat (hidden_dim m)),
          grad_W2 = sum_mat grad_W2 (length (vocab m)) (nat (hidden_dim m)),
          grad_b2 = sum_vec grad_b2 (length (vocab m))\<rparr>)"

text \<open>
  The mean gradient: the sum over every dataset pair, each element divided by the
  number of pairs.
\<close>

definition mean_gradient :: "model \<Rightarrow> grads" where
  "mean_gradient m =
     (let n = length (inputs (dataset m));
          s = sum_gradient m n;
          mean_vec = map (\<lambda>x. x / real n);
          mean_mat = map mean_vec
      in \<lparr>grad_E = mean_mat (grad_E s), grad_W1 = mean_mat (grad_W1 s),
          grad_b1 = mean_vec (grad_b1 s), grad_W2 = mean_mat (grad_W2 s),
          grad_b2 = mean_vec (grad_b2 s)\<rparr>)"

text \<open>
  One gradient-descent update: every parameter element \<open>p\<close> becomes
  \<open>p - learning_rate * g\<close> for the corresponding element \<open>g\<close> of the mean gradient.
\<close>

definition full_batch_step :: "model \<Rightarrow> model" where
  "full_batch_step m =
     (let a = mean_gradient m;
          step_vec = map2 (\<lambda>p g. p - learning_rate m * g);
          step_mat = map2 step_vec
      in m\<lparr>E := step_mat (E m) (grad_E a),
           W1 := step_mat (W1 m) (grad_W1 a),
           b1 := step_vec (b1 m) (grad_b1 a),
           W2 := step_mat (W2 m) (grad_W2 a),
           b2 := step_vec (b2 m) (grad_b2 a)\<rparr>)"

subsection \<open>A concrete model\<close>

text \<open>
  The model of the repository's test \<^verbatim>\<open>test_predict_next_probabilities_sum_to_one\<close>:
  text \<^verbatim>\<open>"abcabcabc"\<close>, \<^verbatim>\<open>context=2\<close>, \<^verbatim>\<open>embed_dim=3\<close>, \<^verbatim>\<open>hidden_dim=6\<close>,
  \<^verbatim>\<open>learning_rate=0.3\<close>, for the generator stream that is constantly \<open>1/2\<close>, so that
  every weight drawn is \<open>0\<close>.
\<close>

definition abc_model :: model where
  "abc_model =
     \<lparr>context_size = 2, embed_dim = 3, hidden_dim = 6, learning_rate = 3 / 10,
      vocab = ''abc'',
      stoi = [CHR ''a'' \<mapsto> 0, CHR ''b'' \<mapsto> 1, CHR ''c'' \<mapsto> 2],
      itos = [0 \<mapsto> CHR ''a'', 1 \<mapsto> CHR ''b'', 2 \<mapsto> CHR ''c''],
      dataset = \<lparr>inputs = [[0, 1], [1, 2], [2, 0], [0, 1], [1, 2], [2, 0], [0, 1]],
                 targets = [2, 0, 1, 2, 0, 1, 2]\<rparr>,
      E = replicate 3 (replicate 3 0),
      W1 = replicate 6 (replicate 6 0),
      b1 = replicate 6 0,
      W2 = replicate 3 (replicate 6 0),
      b2 = replicate 3 0\<rparr>"

text \<open>
  A second model, whose vocabulary holds the space character: text \<^verbatim>\<open>"a b a b"\<close>,
  \<^verbatim>\<open>context=2\<close>, \<^verbatim>\<open>embed_dim=1\<close>, \<^verbatim>\<open>hidden_dim=1\<close>, \<^verbatim>\<open>learning_rate=0.1\<close>, same generator
  stream.
\<close>

definition spaced_model :: model where
  "spaced_model =
     \<lparr>context_size = 2, embed_dim = 1, hidden_dim = 1, learning_rate = 1 / 10,
      vocab = '' ab'',
      stoi = [CHR '' '' \<mapsto> 0, CHR ''a'' \<mapsto> 1, CHR ''b'' \<mapsto> 2],
      itos = [0 \<mapsto> CHR '' '', 1 \<mapsto> CHR ''a'', 2 \<mapsto> CHR ''b''],
      dataset = \<lparr>inputs = [[1, 0], [0, 2], [2, 0], [0, 1], [1, 0]],
                 targets = [2, 0, 1, 0, 2]\<rparr>,
      E = replicate 3 (replicate 1 0),
      W1 = replicate 1 (replicate 2 0),
      b1 = replicate 1 0,
      W2 = replicate 3 (replicate 1 0),
      b2 = replicate 3 0\<rparr>"


section \<open>Loops, subscripts and comprehensions\<close>

lemma ebind_Inr [simp]: "ebind (Inr x) f = f x"
  by (simp add: ebind_def)

lemma ebind_Inl [simp]: "ebind (Inl e) f = Inl e"
  by (simp add: ebind_def)

lemma ebind_eq_Inr: "ebind r f = Inr y \<longleftrightarrow> (\<exists>x. r = Inr x \<and> f x = Inr y)"
  by (cases r) simp_all

lemma for_each_append:
  "for_each (xs @ ys) f s = ebind (for_each xs f s) (for_each ys f)"
  by (induction xs arbitrary: s) (auto split: sum.splits)

lemma for_each_nth_inv:
  assumes "P 0 s"
    and "\<And>i t. i < length xs \<Longrightarrow> P i t \<Longrightarrow> \<exists>t'. f (xs ! i) t = Inr t' \<and> P (Suc i) t'"
  shows "\<exists>s'. for_each xs f s = Inr s' \<and> P (length xs) s'"
  using assms
proof (induction xs rule: rev_induct)
  case Nil
  then show ?case by simp
next
  case (snoc x xs)
  have "\<exists>s'. for_each xs f s = Inr s' \<and> P (length xs) s'"
  proof (rule snoc.IH [OF snoc.prems(1)])
    fix i t assume "i < length xs" "P i t"
    with snoc.prems(2) [of i t] show "\<exists>t'. f (xs ! i) t = Inr t' \<and> P (Suc i) t'"
      by (simp add: nth_append)
  qed
  then obtain s1 where s1: "for_each xs f s = Inr s1" "P (length xs) s1" by blast
  from snoc.prems(2) [of "length xs" s1] s1(2)
  obtain s2 where "f x s1 = Inr s2" "P (Suc (length xs)) s2" by auto
  with s1 show ?case by (simp add: for_each_append)
qed

lemma for_each_upt_inv:
  assumes "P 0 s"
    and "\<And>i t. i < n \<Longrightarrow> P i t \<Longrightarrow> \<exists>t'. f i t = Inr t' \<and> P (Suc i) t'"
  shows "\<exists>s'. for_each [0..<n] f s = Inr s' \<and> P n s'"
  using for_each_nth_inv [of P s "[0..<n]" f] assms by simp

lemma for_each_enumerate_inv:
  assumes "P 0 s"
    and "\<And>i t. i < length xs \<Longrightarrow> P i t \<Longrightarrow> \<exists>t'. f (i, xs ! i) t = Inr t' \<and> P (Suc i) t'"
  shows "\<exists>s'. for_each (enumerate 0 xs) f s = Inr s' \<and> P (length xs) s'"
  using for_each_nth_inv [of P s "enumerate 0 xs" f] assms by (simp add: nth_enumerate_eq)

lemma map_err_Inr:
  assumes "\<And>x. x \<in> set xs \<Longrightarrow> f x = Inr (g x)"
  shows "map_err f xs = Inr (map g xs)"
  using assms by (induction xs) simp_all

lemma map_err_Inl:
  assumes "x \<in> set xs" "f x = Inl e" "\<And>y. y \<in> set xs \<Longrightarrow> f y = Inl e \<or> (\<exists>z. f y = Inr z)"
  shows "map_err f xs = Inl e"
  using assms
proof (induction xs)
  case Nil then show ?case by simp
next
  case (Cons a xs)
  show ?case
  proof (cases "f a")
    case (Inl e') 
    with Cons.prems(3) [of a] show ?thesis by auto
  next
    case (Inr z)
    with Cons.prems have "x \<in> set xs" by auto
    from Cons.IH [OF this Cons.prems(2)] Cons.prems(3) have "map_err f xs = Inl e" by auto
    with Inr show ?thesis by simp
  qed
qed

lemma getitem_Inr [simp]: "i < length xs \<Longrightarrow> getitem xs i = Inr (xs ! i)"
  by (simp add: getitem_def)

lemma setitem_Inr [simp]: "i < length xs \<Longrightarrow> setitem xs i v = Inr (xs[i := v])"
  by (simp add: setitem_def)

lemma getitem2_Inr [simp]: "i < length M \<Longrightarrow> j < length (M ! i) \<Longrightarrow> getitem2 M i j = Inr (M ! i ! j)"
  by (simp add: getitem2_def)

lemma update_Inr:
  "i < length xs \<Longrightarrow> f (xs ! i) = Inr y \<Longrightarrow> update xs i f = Inr (xs[i := y])"
  by (simp add: update_def)

lemma update2_Inr:
  "i < length M \<Longrightarrow> j < length (M ! i) \<Longrightarrow> f (M ! i ! j) = Inr y \<Longrightarrow>
   update2 M i j f = Inr (M[i := (M ! i)[j := y]])"
  by (simp add: update2_def update_Inr)

lemma augment_Inr [simp]: "augment opr (Inr r) x = Inr (opr x r)"
  by (simp add: augment_def)


section \<open>Vocabulary\<close>

lemma dict_of_snoc: "dict_of (kvs @ [(k, v)]) = (dict_of kvs)(k \<mapsto> v)"
  by (simp add: dict_of_def)

lemma dict_of_Nil: "dict_of [] = Map.empty"
  by (simp add: dict_of_def)

lemma stoi_dict_None:
  "c \<notin> set xs \<Longrightarrow> dict_of (map (\<lambda>(i, ch). (ch, i)) (enumerate 0 xs)) c = None"
  by (induction xs rule: rev_induct)
     (simp_all add: dict_of_Nil dict_of_snoc enumerate_append_eq)

lemma stoi_dict_nth:
  "distinct xs \<Longrightarrow> i < length xs \<Longrightarrow>
   dict_of (map (\<lambda>(i, ch). (ch, i)) (enumerate 0 xs)) (xs ! i) = Some i"
proof (induction xs rule: rev_induct)
  case Nil
  then show ?case by simp
next
  case (snoc x xs)
  show ?case
  proof (cases "i < length xs")
    case True
    with snoc.prems have "xs ! i \<noteq> x" by auto
    with True snoc show ?thesis
      by (simp add: dict_of_snoc enumerate_append_eq nth_append)
  next
    case False
    with snoc.prems have "i = length xs" by simp
    then show ?thesis
      by (simp add: dict_of_snoc enumerate_append_eq)
  qed
qed

lemma itos_dict:
  "dict_of (map (\<lambda>(ch, i). (i, ch)) (map (\<lambda>(i, ch). (ch, i)) (enumerate 0 xs))) i =
   (if i < length xs then Some (xs ! i) else None)"
  by (induction xs rule: rev_induct)
     (auto simp add: dict_of_Nil dict_of_snoc enumerate_append_eq nth_append)

lemma build_vocab_eq:
  "build_vocab text = (vs, st, it) \<Longrightarrow>
   vs = sorted_list_of_set (set text) \<and>
   st = dict_of (map (\<lambda>(i, ch). (ch, i)) (enumerate 0 vs)) \<and>
   it = dict_of (map (\<lambda>(ch, i). (i, ch)) (map (\<lambda>(i, ch). (ch, i)) (enumerate 0 vs)))"
  by (auto simp add: build_vocab_def Let_def)

lemma build_vocab_props:
  assumes "build_vocab text = (vs, st, it)"
  shows "set vs = set text" and "distinct vs" and "sorted vs"
    and "\<And>i. i < length vs \<Longrightarrow> st (vs ! i) = Some i"
    and "\<And>c. c \<notin> set text \<Longrightarrow> st c = None"
    and "\<And>i. it i = (if i < length vs then Some (vs ! i) else None)"
proof -
  note e = build_vocab_eq [OF assms]
  show "set vs = set text" "distinct vs" "sorted vs" using e by simp_all
  then show "\<And>i. i < length vs \<Longrightarrow> st (vs ! i) = Some i"
    using e stoi_dict_nth [of vs] by simp
  show "\<And>c. c \<notin> set text \<Longrightarrow> st c = None"
    using e stoi_dict_None [of _ vs] by simp
  show "\<And>i. it i = (if i < length vs then Some (vs ! i) else None)"
    using e itos_dict [of vs] by simp
qed

lemma build_vocab_idem:
  assumes "build_vocab text = (vs, st, it)"
  shows "build_vocab vs = (vs, st, it)"
proof -
  note e = build_vocab_eq [OF assms]
  have "sorted_list_of_set (set vs) = vs"
    using e by (simp add: sorted_list_of_set.idem_if_sorted_distinct)
  then show ?thesis using e by (simp add: build_vocab_def Let_def)
qed

lemma stoi_in_text:
  assumes "build_vocab text = (vs, st, it)" "c \<in> set text"
  shows "\<exists>j<length vs. st c = Some j \<and> vs ! j = c"
proof -
  from assms build_vocab_props(1) [OF assms(1)] have "c \<in> set vs" by simp
  then obtain j where "j < length vs" "vs ! j = c" by (auto simp add: in_set_conv_nth)
  with build_vocab_props(4) [OF assms(1), of j] show ?thesis by auto
qed


section \<open>Dataset and construction\<close>

lemma py_slice_window:
  assumes "0 \<le> ctx" "int i + ctx \<le> int (length xs)"
  shows "py_slice xs (int i) (int i + ctx) = take (nat ctx) (drop i xs)"
proof -
  have "slice_bound (length xs) (int i) = i"
    using assms by (simp add: slice_bound_def)
  moreover have "slice_bound (length xs) (int i + ctx) = i + nat ctx"
    using assms by (simp add: slice_bound_def nat_add_distrib)
  ultimately show ?thesis by (simp add: py_slice_def)
qed

lemma py_index_nonneg:
  assumes "0 \<le> k" "k < int (length xs)"
  shows "py_index xs k = Inr (xs ! nat k)"
  using assms by (simp add: py_index_def)

lemma encode_Inr:
  assumes "\<And>c. c \<in> set s \<Longrightarrow> st c \<noteq> None"
  shows "encode st s = Inr (map (\<lambda>c. the (st c)) s)"
  unfolding encode_def
  by (rule map_err_Inr) (use assms in \<open>fastforce simp add: lookup_def\<close>)

lemma encode_KeyError:
  assumes "c \<in> set s" "st c = None"
  shows "encode st s = Inl KeyError"
  unfolding encode_def
  by (rule map_err_Inl [OF assms(1)]) (use assms in \<open>auto simp add: lookup_def split: option.splits\<close>)

lemma build_dataset_Inr:
  assumes ctx: "0 \<le> ctx" and st: "\<And>c. c \<in> set text \<Longrightarrow> st c \<noteq> None"
  shows "build_dataset st ctx text =
         Inr \<lparr>inputs = map (\<lambda>i. map (\<lambda>c. the (st c)) (take (nat ctx) (drop i text)))
                            [0..<nat (int (length text) - ctx)],
              targets = map (\<lambda>i. the (st (text ! (i + nat ctx))))
                            [0..<nat (int (length text) - ctx)]\<rparr>"
proof -
  let ?n = "nat (int (length text) - ctx)"
  let ?P = "\<lambda>k ds. ds = \<lparr>inputs = map (\<lambda>i. map (\<lambda>c. the (st c)) (take (nat ctx) (drop i text))) [0..<k],
                        targets = map (\<lambda>i. the (st (text ! (i + nat ctx)))) [0..<k]\<rparr>"
  have step: "\<exists>t'. build_dataset_step st ctx text i t = Inr t' \<and> ?P (Suc i) t'"
    if "i < ?n" "?P i t" for i t
  proof -
    from that(1) ctx have le: "int i + ctx < int (length text)" by linarith
    have w: "py_slice text (int i) (int i + ctx) = take (nat ctx) (drop i text)"
      using py_slice_window [of ctx i "text"] ctx le by simp
    have t: "py_index text (int i + ctx) = Inr (text ! (i + nat ctx))"
      using py_index_nonneg [of "int i + ctx" "text"] ctx le by (simp add: nat_add_distrib)
    have e: "encode st (take (nat ctx) (drop i text)) =
             Inr (map (\<lambda>c. the (st c)) (take (nat ctx) (drop i text)))"
      by (rule encode_Inr) (meson in_set_dropD in_set_takeD st)
    have "i + nat ctx < length text" using le ctx by linarith
    then have "st (text ! (i + nat ctx)) \<noteq> None" using st by simp
    then have l: "lookup st (text ! (i + nat ctx)) = Inr (the (st (text ! (i + nat ctx))))"
      by (auto simp add: lookup_def)
    show ?thesis using that(2) by (simp add: build_dataset_step_def w t e l)
  qed
  from for_each_upt_inv [of ?P "\<lparr>inputs = [], targets = []\<rparr>" ?n "build_dataset_step st ctx text"] step
  show ?thesis unfolding build_dataset_def by auto
qed

lemma construct_too_short:
  "int (length text) \<le> ctx \<Longrightarrow> construct text ctx edim hdim lr rnd = Inl InvalidConfiguration"
  by (simp add: construct_def)

lemma construct_Inr:
  assumes "0 \<le> ctx" "ctx < int (length text)" "build_vocab text = (vs, st, it)"
  shows "construct text ctx edim hdim lr rnd =
     Inr \<lparr>context_size = ctx, embed_dim = edim, hidden_dim = hdim,
          learning_rate = lr, vocab = vs, stoi = st, itos = it,
          dataset = \<lparr>inputs = map (\<lambda>i. map (\<lambda>c. the (st c)) (take (nat ctx) (drop i text)))
                            [0..<nat (int (length text) - ctx)],
              targets = map (\<lambda>i. the (st (text ! (i + nat ctx))))
                            [0..<nat (int (length text) - ctx)]\<rparr>,
          E = random_matrix rnd 0 (int (length vs)) edim 0.5,
          W1 = random_matrix rnd (length vs * nat edim) hdim (ctx * edim) 0.1,
          b1 = replicate (nat hdim) 0,
          W2 = random_matrix rnd (length vs * nat edim + nat hdim * nat (ctx * edim))
                 (int (length vs)) hdim 0.1,
          b2 = replicate (length vs) 0\<rparr>"
proof -
  have "st c \<noteq> None" if "c \<in> set text" for c
    using stoi_in_text [OF assms(3) that] by auto
  from build_dataset_Inr [of ctx "text" st, OF assms(1) this] assms
  show ?thesis by (simp add: construct_def Let_def)
qed


section \<open>Shapes and the concrete model\<close>

lemma mat_shape_nth:
  "mat_shape M rows cols \<longleftrightarrow> length M = rows \<and> (\<forall>i<rows. length (M ! i) = cols)"
  by (auto simp add: mat_shape_def all_set_conv_all_nth)

lemma mat_shape_zeros: "mat_shape (zeros rows cols) (nat rows) (nat cols)"
  by (simp add: mat_shape_def zeros_def)

lemma mat_shape_random_matrix: "mat_shape (random_matrix rnd k rows cols scale) (nat rows) (nat cols)"
  by (auto simp add: mat_shape_def random_matrix_def)

lemma build_vocab_set: "set t1 = set t2 \<Longrightarrow> build_vocab t1 = build_vocab t2"
  by (simp add: build_vocab_def)

lemma abc_vocab: "build_vocab ''abc'' = (vocab abc_model, stoi abc_model, itos abc_model)"
  by (simp add: build_vocab_def abc_model_def sorted_list_of_set_sort_remdups dict_of_def
        enumerate_eq_zip Let_def numeral_2_eq_2)

lemma abc_vocab': "build_vocab ''abcabcabc'' = (vocab abc_model, stoi abc_model, itos abc_model)"
proof -
  have "set ''abcabcabc'' = set ''abc''" by auto
  from build_vocab_set [OF this] abc_vocab show ?thesis by simp
qed

lemma wf_abc_model: "wf_model abc_model"
  unfolding wf_model_def using abc_vocab
  by (simp add: abc_model_def mat_shape_def)

lemma construct_abc:
  "construct ''abcabcabc'' 2 3 6 (3 / 10) (\<lambda>_. 1 / 2) = Inr abc_model"
proof -
  have "construct ''abcabcabc'' 2 3 6 (3 / 10) (\<lambda>_. 1 / 2) = Inr abc_model"
    by (subst construct_Inr [where vs = "vocab abc_model" and st = "stoi abc_model" and it = "itos abc_model"])
       (simp_all add: abc_vocab' abc_model_def random_matrix_def uniform_def upt_rec eval_nat_numeral)
  then show ?thesis .
qed

lemma spaced_vocab:
  "build_vocab '' ab'' = (vocab spaced_model, stoi spaced_model, itos spaced_model)"
  by (simp add: build_vocab_def spaced_model_def sorted_list_of_set_sort_remdups dict_of_def
        enumerate_eq_zip Let_def numeral_2_eq_2)

lemma wf_spaced_model: "wf_model spaced_model"
  unfolding wf_model_def using spaced_vocab
  by (simp add: spaced_model_def mat_shape_def)

lemma construct_spaced:
  "construct ''a b a b'' 2 1 1 (1 / 10) (\<lambda>_. 1 / 2) = Inr spaced_model"
proof -
  have "set ''a b a b'' = set '' ab''" by auto
  from build_vocab_set [OF this] spaced_vocab
  have bv: "build_vocab ''a b a b'' = (vocab spaced_model, stoi spaced_model, itos spaced_model)"
    by simp
  show ?thesis
    by (subst construct_Inr [where vs = "vocab spaced_model" and st = "stoi spaced_model"
          and it = "itos spaced_model"])
       (simp_all add: bv spaced_model_def random_matrix_def uniform_def upt_rec eval_nat_numeral)
qed


section \<open>Construction: claims C6 and C8\<close>

lemma construct_wf:
  assumes "0 \<le> ctx" "construct text ctx edim hdim lr rnd = Inr m"
  shows "wf_model m"
proof -
  obtain vs st it where bv: "build_vocab text = (vs, st, it)" by (cases "build_vocab text") auto
  from assms have lt: "ctx < int (length text)"
    by (auto simp add: construct_def split: if_splits)
  then have ne: "text \<noteq> []" using assms(1) by auto
  note p = build_vocab_props [OF bv]
  from ne p(1) have vs: "vs \<noteq> []" by auto
  have idx: "the (st c) < length vs" if "c \<in> set text" for c
    using stoi_in_text [OF bv that] by auto
  have m: "m = \<lparr>context_size = ctx, embed_dim = edim, hidden_dim = hdim,
          learning_rate = lr, vocab = vs, stoi = st, itos = it,
          dataset = \<lparr>inputs = map (\<lambda>i. map (\<lambda>c. the (st c)) (take (nat ctx) (drop i text)))
                            [0..<nat (int (length text) - ctx)],
              targets = map (\<lambda>i. the (st (text ! (i + nat ctx))))
                            [0..<nat (int (length text) - ctx)]\<rparr>,
          E = random_matrix rnd 0 (int (length vs)) edim 0.5,
          W1 = random_matrix rnd (length vs * nat edim) hdim (ctx * edim) 0.1,
          b1 = replicate (nat hdim) 0,
          W2 = random_matrix rnd (length vs * nat edim + nat hdim * nat (ctx * edim))
                 (int (length vs)) hdim 0.1,
          b2 = replicate (length vs) 0\<rparr>"
    using construct_Inr [OF assms(1) lt bv, of edim hdim lr rnd] assms(2) by simp
  have win: "length (take (nat ctx) (drop i text)) = nat ctx" if "i < nat (int (length text) - ctx)" for i
    using that assms(1) by auto
  have tgt: "the (st (text ! (i + nat ctx))) < length vs" if "i < nat (int (length text) - ctx)" for i
  proof -
    from that assms(1) have "i + nat ctx < length text" by linarith
    then show ?thesis using idx by simp
  qed
  have inp: "the (st c) < length vs" if "c \<in> set (take (nat ctx) (drop i text))" for c i
    using that idx by (meson in_set_dropD in_set_takeD)
  show ?thesis
    unfolding wf_model_def m
    using assms(1) vs build_vocab_idem [OF bv] win tgt inp
      mat_shape_random_matrix [of rnd _ "int (length vs)"]
      mat_shape_random_matrix [of rnd _ hdim]
    by (auto simp del: take_all_iff)
qed

text \<open>
  Claim C6. Constructing a model fails with InvalidConfiguration exactly when
  \<open>len(text) \<le> context\<close>, and succeeds, returning a model with the requested
  hyperparameters, when \<open>len(text) > context\<close>. The claim's positive \<^verbatim>\<open>context\<close> is used only
  as \<open>0 \<le> context\<close>; nothing is needed of \<^verbatim>\<open>embed_dim\<close>, \<^verbatim>\<open>hidden_dim\<close> and
  \<^verbatim>\<open>learning_rate\<close>.
\<close>

theorem construct_invalid_configuration:
  assumes "0 \<le> ctx"
  shows "(construct text ctx edim hdim lr rnd = Inl InvalidConfiguration \<longleftrightarrow>
            int (length text) \<le> ctx) \<and>
         (ctx < int (length text) \<longrightarrow>
            (\<exists>m. construct text ctx edim hdim lr rnd = Inr m \<and> context_size m = ctx \<and>
                 embed_dim m = edim \<and> hidden_dim m = hdim \<and> learning_rate m = lr))"
proof (cases "int (length text) \<le> ctx")
  case True
  then show ?thesis by (simp add: construct_too_short)
next
  case False
  obtain vs st it where bv: "build_vocab text = (vs, st, it)" by (cases "build_vocab text") auto
  from False have "ctx < int (length text)" by simp
  from construct_Inr [OF assms this bv, of edim hdim lr rnd] False
  show ?thesis by simp
qed

theorem construct_invalid_configuration_witness:
  "(0::int) \<le> 2 \<and> 2 < int (length ''abcabcabc'') \<and>
   construct ''abcabcabc'' 2 3 6 (3 / 10) (\<lambda>_. 1 / 2) \<noteq> Inl InvalidConfiguration \<and>
   (\<exists>m. construct ''abcabcabc'' 2 3 6 (3 / 10) (\<lambda>_. 1 / 2) = Inr m \<and> context_size m = 2)"
  using construct_invalid_configuration [of 2 "''abcabcabc''" 3 6 "3 / 10" "\<lambda>_. 1 / 2"]
  by auto

text \<open>
  Claim C8. For \<open>len(text) > context\<close> the constructed dataset has exactly
  \<open>len(text) - context\<close> pairs in text order; the \<open>i\<close>-th input has exactly \<^verbatim>\<open>context\<close>
  elements, its \<open>k\<close>-th element is the vocabulary index of \<open>text[i + k]\<close>, and the \<open>i\<close>-th
  target is the vocabulary index of \<open>text[i + context]\<close>. The vocabulary is the sorted
  list of the distinct characters of the text, so the index of a character is unique.
\<close>

theorem build_dataset_windows:
  assumes "0 \<le> ctx" and "ctx < int (length text)"
  shows "\<exists>m. construct text ctx edim hdim lr rnd = Inr m \<and>
           vocab m = sorted_list_of_set (set text) \<and>
           length (inputs (dataset m)) = length text - nat ctx \<and>
           length (targets (dataset m)) = length text - nat ctx \<and>
           (\<forall>i<length text - nat ctx.
               length (inputs (dataset m) ! i) = nat ctx \<and>
               (\<forall>k<nat ctx. inputs (dataset m) ! i ! k < length (vocab m) \<and>
                            vocab m ! (inputs (dataset m) ! i ! k) = text ! (i + k)) \<and>
               targets (dataset m) ! i < length (vocab m) \<and>
               vocab m ! (targets (dataset m) ! i) = text ! (i + nat ctx))"
proof -
  obtain vs st it where bv: "build_vocab text = (vs, st, it)" by (cases "build_vocab text") auto
  let ?n = "length text - nat ctx"
  have n: "nat (int (length text) - ctx) = ?n" using assms by linarith
  have vs: "vs = sorted_list_of_set (set text)" using build_vocab_eq [OF bv] by simp
  have idx: "the (st c) < length vs \<and> vs ! the (st c) = c" if "c \<in> set text" for c
    using stoi_in_text [OF bv that] by auto
  have pw: "length (take (nat ctx) (drop i text)) = nat ctx \<and>
        (\<forall>k<nat ctx. the (st (take (nat ctx) (drop i text) ! k)) < length vs \<and>
                     vs ! the (st (take (nat ctx) (drop i text) ! k)) = text ! (i + k)) \<and>
        the (st (text ! (i + nat ctx))) < length vs \<and>
        vs ! the (st (text ! (i + nat ctx))) = text ! (i + nat ctx)" if "i < ?n" for i
  proof -
    from that have le: "i + nat ctx < length text" by linarith
    have "take (nat ctx) (drop i text) ! k = text ! (i + k)" if "k < nat ctx" for k
      using that le by simp
    moreover have "text ! (i + k) \<in> set text" if "k < nat ctx" for k
      using that le by simp
    moreover have "text ! (i + nat ctx) \<in> set text" using le by simp
    ultimately show ?thesis using idx le by auto
  qed
  show ?thesis
    by (subst construct_Inr [OF assms bv]) (use pw in \<open>simp add: n vs [symmetric]\<close>)
qed

theorem build_dataset_windows_witness:
  "(0::int) \<le> 2 \<and> 2 < int (length ''abcabcabc'') \<and>
   (\<exists>m. construct ''abcabcabc'' 2 3 6 (3 / 10) (\<lambda>_. 1 / 2) = Inr m \<and>
        length (inputs (dataset m)) = 7 \<and> length (targets (dataset m)) = 7 \<and>
        length (inputs (dataset m) ! 0) = 2)"
proof -
  from build_dataset_windows [of 2 "''abcabcabc''" 3 6 "3 / 10" "\<lambda>_. 1 / 2"]
  obtain m where "construct ''abcabcabc'' 2 3 6 (3 / 10) (\<lambda>_. 1 / 2) = Inr m"
    "length (inputs (dataset m)) = 7" "length (targets (dataset m)) = 7"
    "\<forall>i<7. length (inputs (dataset m) ! i) = 2"
    by auto
  then show ?thesis by auto
qed


section \<open>Softmax and the forward evaluation\<close>

lemma add_inplace_Inr:
  "length src = length target \<Longrightarrow> add_inplace target src = Inr (map2 (+) target src)"
  by (induction target src rule: add_inplace.induct) simp_all

lemma length_matvec [simp]: "length (matvec M v) = length M"
  by (simp add: matvec_def)

lemma length_relu [simp]: "length (relu v) = length v"
  by (simp add: relu_def)

lemma sum_list_pos_real:
  fixes xs :: "real list"
  assumes "xs \<noteq> []" "\<And>x. x \<in> set xs \<Longrightarrow> 0 < x"
  shows "0 < sum_list xs"
  using assms
proof (induction xs)
  case Nil
  then show ?case by simp
next
  case (Cons a xs)
  have "0 \<le> sum_list xs"
    by (rule sum_list_nonneg) (use Cons.prems in \<open>auto intro: less_imp_le\<close>)
  moreover have "0 < a" using Cons.prems by simp
  ultimately show ?case by simp
qed

lemma sum_list_divide_real:
  fixes c :: real
  shows "(\<Sum>x\<leftarrow>xs. f x / c) = (\<Sum>x\<leftarrow>xs. f x) / c"
  by (induction xs) (simp_all add: add_divide_distrib)

lemma softmax_total_pos:
  fixes vec :: Vector
  assumes "vec \<noteq> []"
  shows "0 < (\<Sum>u\<leftarrow>vec. exp (u - Max (set vec)))"
  by (rule sum_list_pos_real) (use assms in auto)

lemma softmax_Inr:
  assumes "vec \<noteq> []"
  shows "softmax vec =
         Inr (map (\<lambda>v. exp (v - Max (set vec)) / (\<Sum>u\<leftarrow>vec. exp (u - Max (set vec)))) vec)"
proof -
  let ?T = "\<Sum>u\<leftarrow>vec. exp (u - Max (set vec))"
  have T: "?T \<noteq> 0" using softmax_total_pos [OF assms] by simp
  have "map_err (\<lambda>e. truediv e ?T) (map (\<lambda>v. exp (v - Max (set vec))) vec) =
        Inr (map (\<lambda>e. e / ?T) (map (\<lambda>v. exp (v - Max (set vec))) vec))"
    by (rule map_err_Inr) (simp add: truediv_def T)
  with assms show ?thesis by (simp add: softmax_def Let_def comp_def)
qed

lemma softmax_formula_props:
  fixes vec :: Vector
  assumes "vec \<noteq> []"
  defines "ps \<equiv> map (\<lambda>v. exp (v - Max (set vec)) / (\<Sum>u\<leftarrow>vec. exp (u - Max (set vec)))) vec"
  shows "length ps = length vec" and "\<And>p. p \<in> set ps \<Longrightarrow> 0 < p" and "sum_list ps = 1"
proof -
  let ?T = "\<Sum>u\<leftarrow>vec. exp (u - Max (set vec))"
  have T: "0 < ?T" by (rule softmax_total_pos [OF assms(1)])
  show "length ps = length vec" by (simp add: ps_def)
  show "0 < p" if "p \<in> set ps" for p
    using that T by (auto simp add: ps_def)
  have "sum_list ps = ?T / ?T"
    unfolding ps_def by (simp add: sum_list_divide_real comp_def)
  then show "sum_list ps = 1" using T by simp
qed

lemma length_concat_rows:
  assumes "\<And>r. r \<in> set rows \<Longrightarrow> length r = d"
  shows "length (concat rows) = length rows * d"
  using assms by (induction rows) simp_all

lemma wf_shapes:
  assumes "wf_model m"
  shows "length (E m) = length (vocab m)"
    and "\<And>i. i < length (vocab m) \<Longrightarrow> length (E m ! i) = nat (embed_dim m)"
    and "length (W1 m) = nat (hidden_dim m)"
    and "\<And>i. i < nat (hidden_dim m) \<Longrightarrow> length (W1 m ! i) = nat (context_size m * embed_dim m)"
    and "length (b1 m) = nat (hidden_dim m)"
    and "length (W2 m) = length (vocab m)"
    and "\<And>i. i < length (vocab m) \<Longrightarrow> length (W2 m ! i) = nat (hidden_dim m)"
    and "length (b2 m) = length (vocab m)"
    and "vocab m \<noteq> []" and "0 \<le> context_size m"
  using assms by (simp_all add: wf_model_def mat_shape_nth)

text \<open>
  The Forward Evaluator on valid indices: it returns, and the cache holds what the
  source stores in it.
\<close>

lemma forward_Inr:
  assumes wf: "wf_model m" and xs: "\<forall>v\<in>set xs. v < length (vocab m)"
  defines "xf \<equiv> concat (map ((!) (E m)) xs)"
  defines "hraw \<equiv> map2 (+) (matvec (W1 m) xf) (b1 m)"
  defines "logits \<equiv> map2 (+) (matvec (W2 m) (relu hraw)) (b2 m)"
  defines "ps \<equiv> map (\<lambda>v. exp (v - Max (set logits)) / (\<Sum>u\<leftarrow>logits. exp (u - Max (set logits)))) logits"
  shows "forward m xs =
         Inr (ps, \<lparr>x_indices = xs, x_flat = xf, hidden = relu hraw, hidden_raw = hraw, probs = ps\<rparr>)"
    and "length xf = length xs * nat (embed_dim m)"
    and "length hraw = nat (hidden_dim m)"
    and "length logits = length (vocab m)" and "logits \<noteq> []"
proof -
  note s = wf_shapes [OF wf]
  have ev: "map_err (getitem (E m)) xs = Inr (map ((!) (E m)) xs)"
    by (rule map_err_Inr) (use xs s(1) in simp)
  have h: "add_inplace (matvec (W1 m) xf) (b1 m) = Inr hraw"
    unfolding hraw_def by (rule add_inplace_Inr) (simp add: s)
  have l: "add_inplace (matvec (W2 m) (relu hraw)) (b2 m) = Inr logits"
    unfolding logits_def by (rule add_inplace_Inr) (simp add: s)
  show len: "length logits = length (vocab m)" by (simp add: logits_def s)
  then show ne: "logits \<noteq> []" using s(9) by auto
  show "length hraw = nat (hidden_dim m)" by (simp add: hraw_def s)
  show "length xf = length xs * nat (embed_dim m)"
    unfolding xf_def
    using length_concat_rows [of "map ((!) (E m)) xs" "nat (embed_dim m)"] xs s(2) by auto
  show "forward m xs =
         Inr (ps, \<lparr>x_indices = xs, x_flat = xf, hidden = relu hraw, hidden_raw = hraw, probs = ps\<rparr>)"
    unfolding forward_def
    by (simp add: ev xf_def [symmetric] h l softmax_Inr [OF ne] ps_def [symmetric] Let_def)
qed


section \<open>Encoding, first maximum and single-step prediction\<close>

lemma wf_vocab:
  assumes "wf_model m"
  shows "distinct (vocab m)"
    and "\<And>i. i < length (vocab m) \<Longrightarrow> stoi m (vocab m ! i) = Some i"
    and "\<And>c. c \<notin> set (vocab m) \<Longrightarrow> stoi m c = None"
    and "\<And>i. i < length (vocab m) \<Longrightarrow> itos m i = Some (vocab m ! i)"
    and "\<And>c. c \<in> set (vocab m) \<Longrightarrow> \<exists>j<length (vocab m). stoi m c = Some j \<and> vocab m ! j = c"
proof -
  from assms have bv: "build_vocab (vocab m) = (vocab m, stoi m, itos m)"
    by (simp add: wf_model_def)
  note p = build_vocab_props [OF bv]
  show "distinct (vocab m)" by (rule p(2))
  show "\<And>i. i < length (vocab m) \<Longrightarrow> stoi m (vocab m ! i) = Some i" by (rule p(4))
  show "\<And>c. c \<notin> set (vocab m) \<Longrightarrow> stoi m c = None" by (rule p(5))
  show "\<And>i. i < length (vocab m) \<Longrightarrow> itos m i = Some (vocab m ! i)" by (simp add: p(6))
  show "\<And>c. c \<in> set (vocab m) \<Longrightarrow> \<exists>j<length (vocab m). stoi m c = Some j \<and> vocab m ! j = c"
    by (rule stoi_in_text [OF bv])
qed

lemma wf_encode:
  assumes "wf_model m" "set s \<subseteq> set (vocab m)"
  shows "encode (stoi m) s = Inr (map (\<lambda>c. the (stoi m c)) s)"
    and "\<forall>v\<in>set (map (\<lambda>c. the (stoi m c)) s). v < length (vocab m)"
proof -
  have ok: "\<exists>j<length (vocab m). stoi m c = Some j" if "c \<in> set s" for c
    using wf_vocab(5) [OF assms(1), of c] that assms(2) by auto
  show "encode (stoi m) s = Inr (map (\<lambda>c. the (stoi m c)) s)"
    by (rule encode_Inr) (use ok in auto)
  show "\<forall>v\<in>set (map (\<lambda>c. the (stoi m c)) s). v < length (vocab m)"
    using ok by fastforce
qed

text \<open>The first maximum wins: the scan of \<^verbatim>\<open>max\<close> over a non-empty list.\<close>

lemma fold_max_key:
  fixes key :: "'a \<Rightarrow> real"
  shows "\<exists>pre post. x # rest =
              pre @ fold (\<lambda>y best. if key best < key y then y else best) rest x # post \<and>
           (\<forall>y\<in>set pre. key y < key (fold (\<lambda>y best. if key best < key y then y else best) rest x)) \<and>
           (\<forall>y\<in>set post. key y \<le> key (fold (\<lambda>y best. if key best < key y then y else best) rest x))"
proof (induction rest rule: rev_induct)
  case Nil
  show ?case by (rule exI [of _ "[]"], rule exI [of _ "[]"]) simp
next
  case (snoc y rest)
  let ?b = "fold (\<lambda>y best. if key best < key y then y else best) rest x"
  from snoc obtain pre post where pp: "x # rest = pre @ ?b # post"
    "\<forall>y\<in>set pre. key y < key ?b" "\<forall>y\<in>set post. key y \<le> key ?b"
    by blast
  show ?case
  proof (cases "key ?b < key y")
    case True
    have "\<forall>z\<in>set (x # rest). key z < key y"
      unfolding pp(1) using pp(2,3) True by fastforce
    moreover have "x # rest @ [y] = (x # rest) @ y # []" by simp
    ultimately show ?thesis
      using True by (intro exI [of _ "x # rest"] exI [of _ "[]"]) simp
  next
    case False
    have "x # rest @ [y] = pre @ ?b # (post @ [y])" using pp(1) by simp
    with False pp(2,3) show ?thesis
      by (intro exI [of _ pre] exI [of _ "post @ [y]"]) auto
  qed
qed

lemma max_key_first:
  fixes key :: "'a \<Rightarrow> real"
  assumes "xs \<noteq> []"
  shows "\<exists>i<length xs. max_key key xs = Inr (xs ! i) \<and>
           (\<forall>j<length xs. key (xs ! j) \<le> key (xs ! i)) \<and>
           (\<forall>j<i. key (xs ! j) < key (xs ! i))"
proof -
  from assms obtain x rest where xs: "xs = x # rest" by (cases xs) auto
  let ?b = "fold (\<lambda>y best. if key best < key y then y else best) rest x"
  have mk: "max_key key xs = Inr ?b" by (simp add: max_key_def xs)
  from fold_max_key [where key = key and x = x and rest = rest]
  obtain pre post where pp: "xs = pre @ ?b # post"
    "\<forall>y\<in>set pre. key y < key ?b" "\<forall>y\<in>set post. key y \<le> key ?b"
    unfolding xs by blast
  have i: "length pre < length xs" "xs ! length pre = ?b" by (simp_all add: pp(1))
  have le: "key (xs ! j) \<le> key ?b" if "j < length xs" for j
  proof -
    from that have "xs ! j \<in> set xs" by simp
    then have "xs ! j \<in> set pre \<or> xs ! j = ?b \<or> xs ! j \<in> set post"
      by (subst (asm) (2) pp(1)) auto
    with pp(2,3) show ?thesis by fastforce
  qed
  have lt: "key (xs ! j) < key ?b" if "j < length pre" for j
  proof -
    from that have "xs ! j = pre ! j" by (subst pp(1)) (simp add: nth_append)
    with that pp(2) show ?thesis by simp
  qed
  from mk i le lt show ?thesis by (intro exI [of _ "length pre"]) simp
qed

lemma max_key_upt:
  fixes ps :: Vector
  assumes "ps \<noteq> []"
  shows "\<exists>i<length ps. max_key (\<lambda>i. ps ! i) [0..<length ps] = Inr i \<and>
           (\<forall>j<length ps. ps ! j \<le> ps ! i) \<and> (\<forall>j<i. ps ! j < ps ! i)"
proof -
  from assms have "[0..<length ps] \<noteq> []" by simp
  from max_key_first [OF this, of "\<lambda>i. ps ! i"]
  obtain i where i: "i < length ps"
    "max_key (\<lambda>i. ps ! i) [0..<length ps] = Inr ([0..<length ps] ! i)"
    "\<forall>j<length ps. ps ! ([0..<length ps] ! j) \<le> ps ! ([0..<length ps] ! i)"
    "\<forall>j<i. ps ! ([0..<length ps] ! j) < ps ! ([0..<length ps] ! i)"
    by auto
  from i(1) have n: "[0..<length ps] ! i = i" by simp
  have "\<forall>j<length ps. ps ! j \<le> ps ! i" using i(3) n by simp
  moreover have "\<forall>j<i. ps ! j < ps ! i" using i(4) i(1) n by simp
  ultimately show ?thesis using i(1,2) n by auto
qed

lemma Max_nth_eq:
  fixes ps :: Vector
  assumes "i < length ps" "\<forall>j<length ps. ps ! j \<le> ps ! i"
  shows "Max (set ps) = ps ! i"
proof (rule Max_eqI)
  show "finite (set ps)" by simp
  show "y \<le> ps ! i" if "y \<in> set ps" for y
    using that assms(2) by (auto simp add: in_set_conv_nth)
  show "ps ! i \<in> set ps" using assms(1) by simp
qed

text \<open>\<^verbatim>\<open>predict_next\<close> on a context of the right length over vocabulary characters.\<close>

lemma forward_total:
  assumes wf: "wf_model m" and xs: "\<forall>v\<in>set xs. v < length (vocab m)"
  shows "\<exists>ps c. forward m xs = Inr (ps, c) \<and> length ps = length (vocab m) \<and>
           (\<forall>p\<in>set ps. 0 < p) \<and> sum_list ps = 1 \<and>
           x_indices c = xs \<and> length (x_flat c) = length xs * nat (embed_dim m) \<and>
           length (hidden c) = nat (hidden_dim m) \<and>
           length (hidden_raw c) = nat (hidden_dim m) \<and> probs c = ps \<and>
           (\<exists>logits. logits = map2 (+) (matvec (W2 m) (hidden c)) (b2 m) \<and> logits \<noteq> [] \<and>
              ps = map (\<lambda>v. exp (v - Max (set logits)) /
                              (\<Sum>u\<leftarrow>logits. exp (u - Max (set logits)))) logits)"
proof -
  define xf where "xf = concat (map ((!) (E m)) xs)"
  define hraw where "hraw = map2 (+) (matvec (W1 m) xf) (b1 m)"
  define logits where "logits = map2 (+) (matvec (W2 m) (relu hraw)) (b2 m)"
  define ps where "ps = map (\<lambda>v. exp (v - Max (set logits)) /
                              (\<Sum>u\<leftarrow>logits. exp (u - Max (set logits)))) logits"
  define c where "c = \<lparr>x_indices = xs, x_flat = xf, hidden = relu hraw, hidden_raw = hraw,
                          probs = ps\<rparr>"
  have f2: "length xf = length xs * nat (embed_dim m)"
    unfolding xf_def by (rule forward_Inr(2) [OF wf xs])
  have f3: "length hraw = nat (hidden_dim m)"
    unfolding hraw_def xf_def by (rule forward_Inr(3) [OF wf xs])
  have f4: "length logits = length (vocab m)"
    unfolding logits_def hraw_def xf_def by (rule forward_Inr(4) [OF wf xs])
  have f5: "logits \<noteq> []"
    unfolding logits_def hraw_def xf_def by (rule forward_Inr(5) [OF wf xs])
  have 1: "forward m xs = Inr (ps, c)"
    unfolding c_def ps_def logits_def hraw_def xf_def by (rule forward_Inr(1) [OF wf xs])
  have 2: "length ps = length (vocab m)"
    unfolding ps_def using softmax_formula_props(1) [OF f5] f4 by (rule trans)
  have 3: "\<forall>p\<in>set ps. 0 < p"
    unfolding ps_def using softmax_formula_props(2) [OF f5] by blast
  have 4: "sum_list ps = 1"
    unfolding ps_def by (rule softmax_formula_props(3) [OF f5])
  have 5: "x_indices c = xs" "probs c = ps" "hidden c = relu hraw" by (simp_all add: c_def)
  have 6: "length (x_flat c) = length xs * nat (embed_dim m)" using f2 by (simp add: c_def)
  have 7: "length (hidden c) = nat (hidden_dim m)" "length (hidden_raw c) = nat (hidden_dim m)"
    using f3 by (simp_all add: c_def)
  have 8: "logits = map2 (+) (matvec (W2 m) (hidden c)) (b2 m)"
    by (simp add: logits_def 5(3))
  from 1 2 3 4 5(1,2) 6 7 8 f5 ps_def show ?thesis by blast
qed

lemma predict_next_Inr:
  assumes wf: "wf_model m" and len: "int (length s) = context_size m"
    and voc: "set s \<subseteq> set (vocab m)"
  shows "\<exists>ps c i. forward m (map (\<lambda>c. the (stoi m c)) s) = Inr (ps, c) \<and>
           predict_next m s = Inr (vocab m ! i, ps) \<and> i < length ps \<and>
           length ps = length (vocab m) \<and>
           ps ! i = Max (set ps) \<and> (\<forall>j<i. ps ! j < Max (set ps))"
proof -
  let ?idxs = "map (\<lambda>c. the (stoi m c)) s"
  note e = wf_encode [OF wf voc]
  from forward_total [of m ?idxs, OF wf e(2)]
  obtain ps c where f: "forward m ?idxs = Inr (ps, c)" "length ps = length (vocab m)"
    by blast
  then have ne: "ps \<noteq> []" using wf_shapes(9) [OF wf] by (metis length_0_conv)
  from max_key_upt [OF ne] obtain i where i: "i < length ps"
    "max_key (\<lambda>i. ps ! i) [0..<length ps] = Inr i"
    "\<forall>j<length ps. ps ! j \<le> ps ! i" "\<forall>j<i. ps ! j < ps ! i"
    by blast
  have it: "lookup (itos m) i = Inr (vocab m ! i)"
    using wf_vocab(4) [OF wf, of i] i(1) f(2) by (simp add: lookup_def)
  have mx: "Max (set ps) = ps ! i" by (rule Max_nth_eq [OF i(1) i(3)])
  have "predict_next m s = Inr (vocab m ! i, ps)"
    unfolding predict_next_def using len by (simp add: e(1) f(1) i(2) it)
  with f i(1) i(4) mx show ?thesis by (metis (no_types, lifting))
qed


section \<open>Prediction: claims C7, C9 and C5\<close>

lemma predict_next_of_forward:
  assumes wf: "wf_model m" and len: "int (length s) = context_size m"
    and enc: "encode (stoi m) s = Inr xs" and fwd: "forward m xs = Inr (ps, c)"
    and lps: "length ps = length (vocab m)"
  shows "\<exists>i<length ps. predict_next m s = Inr (vocab m ! i, ps) \<and>
           ps ! i = Max (set ps) \<and> (\<forall>j<i. ps ! j < Max (set ps))"
proof -
  from lps have ne: "ps \<noteq> []" using wf_shapes(9) [OF wf] by (metis length_0_conv)
  from max_key_upt [OF ne] obtain i where i: "i < length ps"
    "max_key (\<lambda>i. ps ! i) [0..<length ps] = Inr i"
    "\<forall>j<length ps. ps ! j \<le> ps ! i" "\<forall>j<i. ps ! j < ps ! i"
    by blast
  have it: "lookup (itos m) i = Inr (vocab m ! i)"
    using wf_vocab(4) [OF wf, of i] i(1) lps by (simp add: lookup_def)
  have mx: "Max (set ps) = ps ! i" by (rule Max_nth_eq [OF i(1) i(3)])
  have "predict_next m s = Inr (vocab m ! i, ps)"
    unfolding predict_next_def using len by (simp add: enc fwd i(2) it)
  with i(1) i(4) mx show ?thesis by auto
qed

text \<open>
  Claim C7. On a sequence of valid vocabulary indices the forward evaluation returns a
  probability vector: its length is the vocabulary size, its entries are non-negative
  and, over the reals, sum to exactly 1. It is the softmax of the output logits
  \<open>W2 \<cdot> hidden + b2\<close>, every logit shifted by the maximum logit before exponentiation and
  divided by the sum of the exponentials; and it is the vector \<^verbatim>\<open>predict_next\<close> returns for
  a context string that encodes to these indices. The length of the index sequence
  plays no role: the statement holds in particular for sequences of length \<^verbatim>\<open>context\<close>.
\<close>

theorem forward_probability_vector:
  assumes "wf_model m" and "\<forall>v\<in>set xs. v < length (vocab m)"
  shows "\<exists>ps c logits. forward m xs = Inr (ps, c) \<and>
           length ps = length (vocab m) \<and> (\<forall>p\<in>set ps. 0 \<le> p) \<and> sum_list ps = 1 \<and>
           logits = map2 (+) (matvec (W2 m) (hidden c)) (b2 m) \<and> logits \<noteq> [] \<and>
           ps = map (\<lambda>v. exp (v - Max (set logits)) /
                          (\<Sum>u\<leftarrow>logits. exp (u - Max (set logits)))) logits \<and>
           (\<forall>s. int (length s) = context_size m \<and> encode (stoi m) s = Inr xs \<longrightarrow>
                (\<exists>ch. predict_next m s = Inr (ch, ps)))"
proof -
  from forward_total [OF assms] obtain ps c logits where
    f: "forward m xs = Inr (ps, c)" "length ps = length (vocab m)" "\<forall>p\<in>set ps. 0 < p"
      "sum_list ps = 1" "logits = map2 (+) (matvec (W2 m) (hidden c)) (b2 m)" "logits \<noteq> []"
      "ps = map (\<lambda>v. exp (v - Max (set logits)) /
                     (\<Sum>u\<leftarrow>logits. exp (u - Max (set logits)))) logits"
    by blast
  have nn: "\<forall>p\<in>set ps. 0 \<le> p" using f(3) by (auto intro: less_imp_le)
  have pn: "\<exists>ch. predict_next m s = Inr (ch, ps)"
    if "int (length s) = context_size m" "encode (stoi m) s = Inr xs" for s
    using predict_next_of_forward [OF assms(1) that f(1,2)] by blast
  from f(1,2) nn f(4,5,6,7) pn show ?thesis by blast
qed

theorem forward_probability_vector_witness:
  "wf_model abc_model \<and>
   (\<exists>ps c. forward abc_model [0, 1] = Inr (ps, c) \<and> length ps = 3 \<and> sum_list ps = 1)"
proof -
  have "\<forall>v\<in>set [0, 1 :: nat]. v < length (vocab abc_model)" by (simp add: abc_model_def)
  from forward_probability_vector [OF wf_abc_model this]
  obtain ps c where "forward abc_model [0, 1] = Inr (ps, c)"
    "length ps = length (vocab abc_model)" "sum_list ps = 1" by blast
  moreover have "length (vocab abc_model) = 3" by (simp add: abc_model_def)
  ultimately show ?thesis using wf_abc_model by auto
qed

text \<open>
  Claim C9. For a context string of exactly \<^verbatim>\<open>context\<close> vocabulary characters,
  \<^verbatim>\<open>predict_next\<close> returns the vocabulary symbol at the smallest index that attains the
  maximum of the returned probability vector.
\<close>

theorem predict_next_argmax:
  assumes "wf_model m" and "int (length s) = context_size m" and "set s \<subseteq> set (vocab m)"
  shows "\<exists>ch ps i. predict_next m s = Inr (ch, ps) \<and> length ps = length (vocab m) \<and>
           i < length (vocab m) \<and> ch = vocab m ! i \<and>
           ps ! i = Max (set ps) \<and> (\<forall>j<i. ps ! j < Max (set ps))"
  using predict_next_Inr [OF assms] by metis

theorem predict_next_argmax_witness:
  "wf_model abc_model \<and> int (length ''ab'') = context_size abc_model \<and>
   set ''ab'' \<subseteq> set (vocab abc_model) \<and>
   (\<exists>ch ps i. predict_next abc_model ''ab'' = Inr (ch, ps) \<and> i < 3 \<and>
      ch = vocab abc_model ! i \<and> ps ! i = Max (set ps))"
proof -
  have h: "int (length ''ab'') = context_size abc_model" "set ''ab'' \<subseteq> set (vocab abc_model)"
    "length (vocab abc_model) = 3"
    by (simp_all add: abc_model_def)
  from predict_next_argmax [OF wf_abc_model h(1,2)] h wf_abc_model show ?thesis
    by metis
qed

text \<open>
  Claim C5, as the code has it. \<^verbatim>\<open>predict_next\<close> fails with InvalidInput when the context
  string does not have exactly \<^verbatim>\<open>context\<close> characters. A string of the right length
  whose characters all occur in the vocabulary yields a (character, probability vector)
  pair. A string of the right length with a character outside the vocabulary fails
  with \<^verbatim>\<open>KeyError\<close>, raised by the dictionary lookup in \<^verbatim>\<open>_encode\<close>: the length check is not
  the only failure mode.
\<close>

theorem predict_next_failure_modes:
  assumes "wf_model m"
  shows "(int (length s) \<noteq> context_size m \<longrightarrow> predict_next m s = Inl InvalidInput) \<and>
         (int (length s) = context_size m \<and> set s \<subseteq> set (vocab m) \<longrightarrow>
            (\<exists>ch ps. predict_next m s = Inr (ch, ps))) \<and>
         (int (length s) = context_size m \<and> \<not> set s \<subseteq> set (vocab m) \<longrightarrow>
            predict_next m s = Inl KeyError)"
proof (intro conjI impI)
  assume "int (length s) \<noteq> context_size m"
  then show "predict_next m s = Inl InvalidInput" by (simp add: predict_next_def)
next
  assume "int (length s) = context_size m \<and> set s \<subseteq> set (vocab m)"
  then show "\<exists>ch ps. predict_next m s = Inr (ch, ps)"
    using predict_next_Inr [OF assms, of s] by blast
next
  assume a: "int (length s) = context_size m \<and> \<not> set s \<subseteq> set (vocab m)"
  then obtain c where c: "c \<in> set s" "c \<notin> set (vocab m)" by auto
  have "encode (stoi m) s = Inl KeyError"
    by (rule encode_KeyError [OF c(1)]) (rule wf_vocab(3) [OF assms c(2)])
  with a show "predict_next m s = Inl KeyError" by (simp add: predict_next_def)
qed

theorem predict_next_failure_modes_witness:
  "wf_model abc_model \<and> int (length ''ab'') = context_size abc_model \<and>
   set ''ab'' \<subseteq> set (vocab abc_model) \<and>
   (\<exists>ch ps. predict_next abc_model ''ab'' = Inr (ch, ps)) \<and>
   int (length ''abc'') \<noteq> context_size abc_model \<and>
   predict_next abc_model ''abc'' = Inl InvalidInput"
proof -
  have h: "int (length ''ab'') = context_size abc_model" "set ''ab'' \<subseteq> set (vocab abc_model)"
    "int (length ''abc'') \<noteq> context_size abc_model"
    by (simp_all add: abc_model_def)
  from predict_next_failure_modes [OF wf_abc_model, of "''ab''"]
    predict_next_failure_modes [OF wf_abc_model, of "''abc''"] h wf_abc_model
  show ?thesis by blast
qed

theorem predict_next_only_failure_counterexample:
  "int (length ''zz'') = context_size abc_model \<and>
   predict_next abc_model ''zz'' = Inl KeyError"
  by (simp add: predict_next_def encode_def lookup_def abc_model_def)


section \<open>The generation loop\<close>

lemma slice_last:
  assumes "0 < ctx"
  shows "py_slice_from g (- ctx) = drop (length g - nat ctx) g"
proof -
  have "slice_bound (length g) (- ctx) = length g - nat ctx"
    using assms by (simp add: slice_bound_def)
  then show ?thesis by (simp add: py_slice_from_def)
qed

text \<open>Lines 285--288 of \<^verbatim>\<open>sample\<close>: the initial window for a positive \<^verbatim>\<open>context\<close>.\<close>

lemma sample_window:
  assumes "0 < context_size m"
  shows "sample m seed max_new =
         sample_loop m (nat max_new)
           (replicate (nat (context_size m) - length seed) (CHR '' '') @
            drop (length seed - nat (context_size m)) seed)"
proof (cases "int (length seed) < context_size m")
  case True
  then have "length seed < nat (context_size m)" by linarith
  then have "py_slice_from (rjust seed (context_size m)) (- context_size m) =
        replicate (nat (context_size m) - length seed) (CHR '' '') @ seed"
    using assms by (simp add: slice_last rjust_def nat_diff_distrib)
  with True show ?thesis by (simp add: sample_def)
next
  case False
  then have "nat (context_size m) \<le> length seed" by linarith
  with False assms show ?thesis by (simp add: sample_def slice_last)
qed

lemma sample_loop_shape:
  "sample_loop m n g = Inr out \<Longrightarrow> \<exists>gen. out = g @ gen \<and> length gen \<le> n"
proof (induction n arbitrary: g)
  case 0
  then show ?case by simp
next
  case (Suc n)
  from Suc.prems obtain ch ps where
    p: "predict_next m (py_slice_from g (- context_size m)) = Inr (ch, ps)"
    by (auto split: sum.splits)
  show ?case
  proof (cases "ch = CHR 0x0A")
    case True
    with Suc.prems p have "out = g @ [ch]" by simp
    then show ?thesis by simp
  next
    case False
    with Suc.prems p have "sample_loop m n (g @ [ch]) = Inr out" by simp
    from Suc.IH [OF this] obtain gen where "out = (g @ [ch]) @ gen" "length gen \<le> n" by blast
    then have "out = g @ (ch # gen) \<and> length (ch # gen) \<le> Suc n" by simp
    then show ?thesis by blast
  qed
qed

lemma sample_loop_total:
  assumes wf: "wf_model m" and ctx: "0 < context_size m"
  shows "nat (context_size m) \<le> length g \<Longrightarrow> set g \<subseteq> set (vocab m) \<Longrightarrow>
         \<exists>out. sample_loop m n g = Inr out \<and> set out \<subseteq> set (vocab m)"
proof (induction n arbitrary: g)
  case 0
  then show ?case by simp
next
  case (Suc n)
  let ?w = "py_slice_from g (- context_size m)"
  have w: "?w = drop (length g - nat (context_size m)) g" by (rule slice_last [OF ctx])
  have len: "int (length ?w) = context_size m" using Suc.prems(1) ctx by (simp add: w)
  have sub: "set ?w \<subseteq> set (vocab m)" using Suc.prems(2) set_drop_subset [of _ g] unfolding w by blast
  from predict_next_Inr [OF wf len sub] obtain ps i where
    p: "predict_next m ?w = Inr (vocab m ! i, ps)" "i < length ps" "length ps = length (vocab m)"
    by blast
  then have ch: "vocab m ! i \<in> set (vocab m)" by simp
  show ?case
  proof (cases "vocab m ! i = CHR 0x0A")
    case True
    with p(1) ch Suc.prems(2) show ?thesis by simp
  next
    case False
    have "\<exists>out. sample_loop m n (g @ [vocab m ! i]) = Inr out \<and> set out \<subseteq> set (vocab m)"
      by (rule Suc.IH) (use Suc.prems ch in auto)
    with False p(1) show ?thesis by simp
  qed
qed

lemma sample_total:
  assumes wf: "wf_model m" and ctx: "0 < context_size m"
    and seed: "set (drop (length seed - nat (context_size m)) seed) \<subseteq> set (vocab m)"
    and pad: "int (length seed) < context_size m \<longrightarrow> CHR '' '' \<in> set (vocab m)"
  shows "\<exists>gen. sample m seed max_new =
           Inr (replicate (nat (context_size m) - length seed) (CHR '' '') @
                drop (length seed - nat (context_size m)) seed @ gen) \<and>
           length gen \<le> nat max_new \<and> set gen \<subseteq> set (vocab m)"
proof -
  let ?w = "replicate (nat (context_size m) - length seed) (CHR '' '') @
            drop (length seed - nat (context_size m)) seed"
  have len: "nat (context_size m) \<le> length ?w" by simp
  have "set (replicate (nat (context_size m) - length seed) (CHR '' '')) \<subseteq> set (vocab m)"
  proof (cases "int (length seed) < context_size m")
    case True
    with pad show ?thesis by auto
  next
    case False
    then have "nat (context_size m) - length seed = 0" by simp
    then show ?thesis by simp
  qed
  with seed have sub: "set ?w \<subseteq> set (vocab m)" by simp
  from sample_loop_total [OF wf ctx len sub, of "nat max_new"] obtain out where
    out: "sample_loop m (nat max_new) ?w = Inr out" "set out \<subseteq> set (vocab m)" by blast
  from sample_loop_shape [OF out(1)] obtain gen where
    gen: "out = ?w @ gen" "length gen \<le> nat max_new" by blast
  with out(2) have "set gen \<subseteq> set (vocab m)" by simp
  with out(1) gen show ?thesis by (auto simp add: sample_window [OF ctx])
qed


section \<open>Sampling: claims C3 and C4\<close>

text \<open>
  Claim C3, as the code has it. For a well-formed model with a positive \<^verbatim>\<open>context\<close> and a
  seed whose window consists of vocabulary characters, \<^verbatim>\<open>sample\<close> returns the initial
  window followed by at most \<^verbatim>\<open>max_new\<close> generated vocabulary characters. The window is
  the last \<^verbatim>\<open>context\<close> characters of the seed, left-padded with spaces to length
  \<^verbatim>\<open>context\<close> when the seed is shorter. So the result begins with the full (padded) seed
  only when the seed has at most \<^verbatim>\<open>context\<close> characters; of a longer seed only the last
  \<^verbatim>\<open>context\<close> characters are returned.
\<close>

theorem sample_extends_window:
  assumes "wf_model m" and "0 < context_size m"
    and "set (drop (length seed - nat (context_size m)) seed) \<subseteq> set (vocab m)"
    and "int (length seed) < context_size m \<longrightarrow> CHR '' '' \<in> set (vocab m)"
  shows "\<exists>gen. length gen \<le> nat max_new \<and> set gen \<subseteq> set (vocab m) \<and>
           sample m seed max_new =
             Inr (replicate (nat (context_size m) - length seed) (CHR '' '') @
                  drop (length seed - nat (context_size m)) seed @ gen) \<and>
           (int (length seed) \<le> context_size m \<longrightarrow>
              sample m seed max_new =
                Inr (replicate (nat (context_size m) - length seed) (CHR '' '') @ seed @ gen))"
proof -
  from sample_total [OF assms, of max_new] obtain gen where
    g: "sample m seed max_new =
           Inr (replicate (nat (context_size m) - length seed) (CHR '' '') @
                drop (length seed - nat (context_size m)) seed @ gen)"
       "length gen \<le> nat max_new" "set gen \<subseteq> set (vocab m)"
    by blast
  have "drop (length seed - nat (context_size m)) seed = seed"
    if "int (length seed) \<le> context_size m"
    using that by simp
  with g show ?thesis by (intro exI [of _ gen]) simp
qed

theorem sample_extends_window_witness:
  "wf_model abc_model \<and> 0 < context_size abc_model \<and>
   set (drop (length ''cab'' - nat (context_size abc_model)) ''cab'') \<subseteq> set (vocab abc_model) \<and>
   (\<exists>gen. length gen \<le> 2 \<and> sample abc_model ''cab'' 2 = Inr (''ab'' @ gen))"
proof -
  have h: "0 < context_size abc_model"
    "set (drop (length ''cab'' - nat (context_size abc_model)) ''cab'') \<subseteq> set (vocab abc_model)"
    "int (length ''cab'') < context_size abc_model \<longrightarrow> CHR '' '' \<in> set (vocab abc_model)"
    by (simp_all add: abc_model_def)
  from sample_extends_window [OF wf_abc_model h, of 2] obtain gen where
    "length gen \<le> nat 2"
    "sample abc_model ''cab'' 2 =
       Inr (replicate (nat (context_size abc_model) - length ''cab'') (CHR '' '') @
            drop (length ''cab'' - nat (context_size abc_model)) ''cab'' @ gen)"
    by blast
  moreover have "replicate (nat (context_size abc_model) - length ''cab'') (CHR '' '') @
            drop (length ''cab'' - nat (context_size abc_model)) ''cab'' @ gen = ''ab'' @ gen"
    by (simp add: abc_model_def)
  ultimately have "\<exists>gen. length gen \<le> 2 \<and> sample abc_model ''cab'' 2 = Inr (''ab'' @ gen)"
    by auto
  with wf_abc_model h(1,2) show ?thesis by blast
qed

theorem sample_drops_seed_prefix_counterexample:
  "context_size abc_model < int (length ''cab'') \<and>
   sample abc_model ''cab'' 1 = Inr ''aba'' \<and> take (length ''cab'') ''aba'' \<noteq> ''cab''"
  by (simp add: sample_def py_slice_from_def slice_bound_def predict_next_def encode_def
      lookup_def abc_model_def forward_def getitem_def matvec_def relu_def softmax_def
      truediv_def max_key_def eval_nat_numeral Let_def)

text \<open>
  Claim C4, as the code has it. For a well-formed model with a positive \<^verbatim>\<open>context\<close>,
  \<^verbatim>\<open>sample\<close> returns a string whenever the last \<^verbatim>\<open>context\<close> characters of the seed are
  vocabulary characters and, for a seed shorter than \<^verbatim>\<open>context\<close>, the space used for
  padding is a vocabulary character too; a short seed is then padded on the left with
  spaces to exactly \<^verbatim>\<open>context\<close> characters. (A window with a character outside the
  vocabulary makes \<^verbatim>\<open>_encode\<close> raise \<^verbatim>\<open>KeyError\<close> in the first generation step.)
\<close>

theorem sample_returns:
  assumes "wf_model m" and "0 < context_size m"
    and "set (drop (length seed - nat (context_size m)) seed) \<subseteq> set (vocab m)"
    and "int (length seed) < context_size m \<longrightarrow> CHR '' '' \<in> set (vocab m)"
  shows "\<exists>out. sample m seed max_new = Inr out \<and>
           (int (length seed) < context_size m \<longrightarrow>
              take (nat (context_size m)) out =
                replicate (nat (context_size m) - length seed) (CHR '' '') @ seed)"
proof -
  from sample_total [OF assms, of max_new] obtain gen where
    g: "sample m seed max_new =
           Inr (replicate (nat (context_size m) - length seed) (CHR '' '') @
                drop (length seed - nat (context_size m)) seed @ gen)"
    by blast
  have "take (nat (context_size m))
          (replicate (nat (context_size m) - length seed) (CHR '' '') @
           drop (length seed - nat (context_size m)) seed @ gen) =
        replicate (nat (context_size m) - length seed) (CHR '' '') @ seed"
    if "int (length seed) < context_size m"
  proof -
    from that have "length seed < nat (context_size m)" by linarith
    then show ?thesis by simp
  qed
  with g show ?thesis by simp
qed

theorem sample_returns_witness:
  "wf_model spaced_model \<and> 0 < context_size spaced_model \<and>
   int (length ''a'') < context_size spaced_model \<and> CHR '' '' \<in> set (vocab spaced_model) \<and>
   (\<exists>out. sample spaced_model ''a'' 3 = Inr out \<and> take 2 out = '' a'')"
proof -
  have h: "0 < context_size spaced_model"
    "set (drop (length ''a'' - nat (context_size spaced_model)) ''a'') \<subseteq> set (vocab spaced_model)"
    "int (length ''a'') < context_size spaced_model \<longrightarrow> CHR '' '' \<in> set (vocab spaced_model)"
    and k: "int (length ''a'') < context_size spaced_model" "CHR '' '' \<in> set (vocab spaced_model)"
    by (simp_all add: spaced_model_def)
  from sample_returns [OF wf_spaced_model h, of 3] k(1) obtain out where
    "sample spaced_model ''a'' 3 = Inr out"
    "take (nat (context_size spaced_model)) out =
       replicate (nat (context_size spaced_model) - length ''a'') (CHR '' '') @ ''a''"
    by blast
  moreover have "nat (context_size spaced_model) = 2"
    "replicate (nat (context_size spaced_model) - length ''a'') (CHR '' '') @ ''a'' = '' a''"
    by (simp_all add: spaced_model_def)
  ultimately have "\<exists>out. sample spaced_model ''a'' 3 = Inr out \<and> take 2 out = '' a''"
    by auto
  with wf_spaced_model h(1) k show ?thesis by blast
qed

theorem sample_fails_counterexample:
  "sample abc_model ''zz'' 1 = Inl KeyError \<and> sample abc_model ''a'' 1 = Inl KeyError"
  by (simp add: sample_def py_slice_from_def slice_bound_def rjust_def predict_next_def
      encode_def lookup_def abc_model_def eval_nat_numeral)


section \<open>Element-wise loops\<close>

lemma prefix_nth:
  "k < length xs \<Longrightarrow> (map G [0..<k] @ drop k xs) ! k = xs ! k"
  by (simp add: nth_append)

lemma prefix_update:
  assumes "k < length xs"
  shows "(map G [0..<k] @ drop k xs)[k := G k] = map G [0..<Suc k] @ drop (Suc k) xs"
proof -
  have "drop k xs = xs ! k # drop (Suc k) xs"
    using assms by (simp add: Cons_nth_drop_Suc)
  then show ?thesis by (simp add: list_update_append)
qed

lemma prefix_length:
  "k \<le> length xs \<Longrightarrow> length (map G [0..<k] @ drop k xs) = length xs"
  by simp

text \<open>The inner loop over the columns of one row.\<close>

lemma row_loop_Inr:
  assumes i: "i < length M" and cols: "length (M ! i) = cols"
    and f: "\<And>j. j < cols \<Longrightarrow> f j (M ! i ! j) = Inr (F j)"
  shows "for_each [0..<cols] (\<lambda>j M'. update2 M' i j (f j)) M = Inr (M[i := map F [0..<cols]])"
proof -
  let ?P = "\<lambda>j M'. M' = M[i := map F [0..<j] @ drop j (M ! i)]"
  have step: "\<exists>t'. update2 t i j (f j) = Inr t' \<and> ?P (Suc j) t'" if "j < cols" "?P j t" for j t
  proof -
    from that(1) cols have j: "j < length (M ! i)" by simp
    have ti: "t ! i = map F [0..<j] @ drop j (M ! i)" using that(2) i by simp
    then have tij: "t ! i ! j = M ! i ! j" using prefix_nth [OF j] by simp
    have lt: "i < length t" "j < length (t ! i)" using that(2) i j ti by simp_all
    have "update2 t i j (f j) = Inr (t[i := (t ! i)[j := F j]])"
      by (rule update2_Inr [OF lt]) (simp add: tij f [OF that(1)])
    moreover have "t[i := (t ! i)[j := F j]] = M[i := map F [0..<Suc j] @ drop (Suc j) (M ! i)]"
      unfolding ti prefix_update [OF j] using that(2) by simp
    ultimately show ?thesis by simp
  qed
  have "?P 0 M" by simp
  from for_each_upt_inv [of ?P M cols "\<lambda>j M'. update2 M' i j (f j)", OF this step]
  show ?thesis using cols by simp
qed

lemma mat_loop_Inr:
  assumes shape: "mat_shape M rows cols"
    and f: "\<And>i j. i < rows \<Longrightarrow> j < cols \<Longrightarrow> f i j (M ! i ! j) = Inr (F i j)"
  shows "mat_loop rows cols f M = Inr (map (\<lambda>i. map (F i) [0..<cols]) [0..<rows])"
proof -
  from shape have len: "length M = rows" and row: "\<And>i. i < rows \<Longrightarrow> length (M ! i) = cols"
    by (simp_all add: mat_shape_nth)
  let ?G = "\<lambda>i. map (F i) [0..<cols]"
  let ?P = "\<lambda>i M'. M' = map ?G [0..<i] @ drop i M"
  let ?body = "\<lambda>i. for_each [0..<cols] (\<lambda>j M'. update2 M' i j (f i j))"
  have step: "\<exists>t'. ?body i t = Inr t' \<and> ?P (Suc i) t'" if "i < rows" "?P i t" for i t
  proof -
    from that(1) len have i: "i < length M" by simp
    have ti: "t ! i = M ! i" using that(2) prefix_nth [OF i] by simp
    have lt: "i < length t" using that(2) i by simp
    have "?body i t = Inr (t[i := map (F i) [0..<cols]])"
      by (rule row_loop_Inr [OF lt]) (simp_all add: ti row [OF that(1)] f [OF that(1)])
    moreover have "t[i := ?G i] = map ?G [0..<Suc i] @ drop (Suc i) M"
      unfolding that(2) by (rule prefix_update [OF i])
    ultimately show ?thesis by simp
  qed
  have "?P 0 M" by simp
  from for_each_upt_inv [of ?P M rows ?body, OF this step]
  show ?thesis unfolding mat_loop_def using len by simp
qed

lemma mat_vec_loop_Inr:
  assumes shape: "mat_shape M rows cols" and lv: "length v = rows"
    and f: "\<And>i j. i < rows \<Longrightarrow> j < cols \<Longrightarrow> f i j (M ! i ! j) = Inr (F i j)"
    and g: "\<And>i. i < rows \<Longrightarrow> g i (v ! i) = Inr (G i)"
  shows "mat_vec_loop rows cols f g (M, v) =
         Inr (map (\<lambda>i. map (F i) [0..<cols]) [0..<rows], map G [0..<rows])"
proof -
  from shape have len: "length M = rows" and row: "\<And>i. i < rows \<Longrightarrow> length (M ! i) = cols"
    by (simp_all add: mat_shape_nth)
  let ?R = "\<lambda>i. map (F i) [0..<cols]"
  let ?P = "\<lambda>i s. s = (map ?R [0..<i] @ drop i M, map G [0..<i] @ drop i v)"
  let ?body = "\<lambda>i (M, v).
       ebind (for_each [0..<cols] (\<lambda>j M'. update2 M' i j (f i j)) M) (\<lambda>M'.
       ebind (update v i (g i)) (\<lambda>v'. Inr (M', v')))"
  have step: "\<exists>t'. ?body i t = Inr t' \<and> ?P (Suc i) t'" if "i < rows" "?P i t" for i t
  proof -
    obtain tM tv where t: "t = (tM, tv)" by (cases t)
    from that(2) t have tM: "tM = map ?R [0..<i] @ drop i M"
      and tv: "tv = map G [0..<i] @ drop i v" by simp_all
    from that(1) len lv have i: "i < length M" "i < length v" by simp_all
    have ti: "tM ! i = M ! i" using tM prefix_nth [OF i(1)] by simp
    have lt: "i < length tM" using tM i by simp
    have 1: "for_each [0..<cols] (\<lambda>j M'. update2 M' i j (f i j)) tM = Inr (tM[i := ?R i])"
      by (rule row_loop_Inr [OF lt]) (simp_all add: ti row [OF that(1)] f [OF that(1)])
    have 2: "tM[i := ?R i] = map ?R [0..<Suc i] @ drop (Suc i) M"
      unfolding tM by (rule prefix_update [OF i(1)])
    have tvi: "tv ! i = v ! i" using tv prefix_nth [OF i(2)] by simp
    have ltv: "i < length tv" using tv i by simp
    have 3: "update tv i (g i) = Inr (tv[i := G i])"
      by (rule update_Inr [OF ltv]) (simp add: tvi g [OF that(1)])
    have 4: "tv[i := G i] = map G [0..<Suc i] @ drop (Suc i) v"
      unfolding tv by (rule prefix_update [OF i(2)])
    show ?thesis unfolding t by (simp add: 1 2 3 4)
  qed
  have "?P 0 (M, v)" by simp
  from for_each_upt_inv [of ?P "(M, v)" rows ?body, OF this step]
  show ?thesis unfolding mat_vec_loop_def using len lv by simp
qed

lemma mat_shape_map [simp]:
  "mat_shape (map (\<lambda>i. map (F i) [0..<cols]) [0..<rows]) rows cols"
  by (simp add: mat_shape_nth)

lemma augment_getitem2:
  "mat_shape R rows cols \<Longrightarrow> i < rows \<Longrightarrow> j < cols \<Longrightarrow>
   augment opr (getitem2 R i j) x = Inr (opr x (R ! i ! j))"
  by (simp add: mat_shape_nth)

lemma augment_getitem:
  "i < length r \<Longrightarrow> augment opr (getitem r i) x = Inr (opr x (r ! i))"
  by simp


section \<open>The dense layers of the backward pass\<close>

lemma for_each_inv:
  assumes "I s" and "\<And>x t. x \<in> set xs \<Longrightarrow> I t \<Longrightarrow> \<exists>t'. f x t = Inr t' \<and> I t'"
  shows "\<exists>s'. for_each xs f s = Inr s' \<and> I s'"
  using for_each_nth_inv [of "\<lambda>_. I" s xs f] assms by simp

lemma mat_shape_update:
  assumes "mat_shape M rows cols" "i < rows" "j < cols"
  shows "mat_shape (M[i := (M ! i)[j := y]]) rows cols"
  using assms by (auto simp add: mat_shape_nth nth_list_update)

lemma update2_shape:
  assumes "mat_shape M rows cols" "i < rows" "j < cols" "f (M ! i ! j) = Inr y"
  shows "\<exists>M'. update2 M i j f = Inr M' \<and> mat_shape M' rows cols"
proof -
  from assms(1-3) have "i < length M" "j < length (M ! i)" by (simp_all add: mat_shape_nth)
  then have "update2 M i j f = Inr (M[i := (M ! i)[j := y]])"
    using assms(4) by (rule update2_Inr)
  with mat_shape_update [OF assms(1-3)] show ?thesis by simp
qed

text \<open>Lines 172--175 and 186--189: the two dense-layer loop nests keep their shapes.\<close>

lemma output_layer_step_shape:
  assumes "length gl = V" "length hid = H" "mat_shape (W2 m) V H" "i < V" "j < H"
    and "mat_shape (fst s) V H \<and> length (snd s) = H"
  shows "\<exists>s'. output_layer_step m gl hid i j s = Inr s' \<and>
              mat_shape (fst s') V H \<and> length (snd s') = H"
proof -
  obtain gW2 gh where s: "s = (gW2, gh)" by (cases s)
  with assms(6) have sh: "mat_shape gW2 V H" "length gh = H" by simp_all
  from update2_shape [OF sh(1) assms(4,5), of "\<lambda>_. Inr (gl ! i * hid ! j)"]
  obtain gW2' where 1: "update2 gW2 i j (\<lambda>_. Inr (gl ! i * hid ! j)) = Inr gW2'"
    "mat_shape gW2' V H" by auto
  have 2: "getitem2 (W2 m) i j = Inr (W2 m ! i ! j)"
    using assms(3,4,5) by (simp add: mat_shape_nth)
  have 3: "update gh j (augment (+) (ebind (getitem2 (W2 m) i j)
              (\<lambda>w. ebind (getitem gl i) (\<lambda>gl'. Inr (w * gl'))))) =
           Inr (gh[j := gh ! j + W2 m ! i ! j * gl ! i])"
    by (rule update_Inr) (use assms(1,4,5) sh(2) 2 in simp_all)
  show ?thesis
    unfolding s output_layer_step_def using assms(1,2,4,5) sh(2) 1 3 by simp
qed

lemma hidden_layer_step_shape:
  assumes "length gh = H" "length xf = I" "mat_shape (W1 m) H I" "j < H" "k < I"
    and "mat_shape (fst s) H I \<and> length (snd s) = I"
  shows "\<exists>s'. hidden_layer_step m gh xf j k s = Inr s' \<and>
              mat_shape (fst s') H I \<and> length (snd s') = I"
proof -
  obtain gW1 gx where s: "s = (gW1, gx)" by (cases s)
  with assms(6) have sh: "mat_shape gW1 H I" "length gx = I" by simp_all
  from update2_shape [OF sh(1) assms(4,5), of "\<lambda>_. Inr (gh ! j * xf ! k)"]
  obtain gW1' where 1: "update2 gW1 j k (\<lambda>_. Inr (gh ! j * xf ! k)) = Inr gW1'"
    "mat_shape gW1' H I" by auto
  have 2: "getitem2 (W1 m) j k = Inr (W1 m ! j ! k)"
    using assms(3,4,5) by (simp add: mat_shape_nth)
  have 3: "update gx k (augment (+) (ebind (getitem2 (W1 m) j k)
              (\<lambda>w. ebind (getitem gh j) (\<lambda>gh'. Inr (w * gh'))))) =
           Inr (gx[k := gx ! k + W1 m ! j ! k * gh ! j])"
    by (rule update_Inr) (use assms(1,4,5) sh(2) 2 in simp_all)
  show ?thesis
    unfolding s hidden_layer_step_def using assms(1,2,4,5) sh(2) 1 3 by simp
qed

lemma nested_loop_shape:
  assumes step: "\<And>i j s. i < R \<Longrightarrow> j < C \<Longrightarrow> I s \<Longrightarrow> \<exists>s'. body i j s = Inr s' \<and> I s'"
    and init: "I s0"
  shows "\<exists>s'. for_each [0..<R] (\<lambda>i. for_each [0..<C] (body i)) s0 = Inr s' \<and> I s'"
proof (rule for_each_inv [where I = I, OF init])
  fix i t assume i: "i \<in> set [0..<R]" and t: "I t"
  show "\<exists>t'. for_each [0..<C] (body i) t = Inr t' \<and> I t'"
    by (rule for_each_inv [where I = I, OF t]) (use i step in simp)
qed

lemma relu_backward_shape:
  assumes "length hraw = length gh"
  shows "\<exists>gh'. relu_backward hraw gh = Inr gh' \<and> length gh' = length gh"
  unfolding relu_backward_def
proof (rule for_each_inv [where I = "\<lambda>g. length g = length gh"])
  show "length gh = length gh" by simp
  fix x and t :: Vector
  assume x: "x \<in> set (enumerate 0 hraw)" and t: "length t = length gh"
  obtain j raw where jr: "x = (j, raw)" by (cases x)
  with x have "j < length hraw" by (simp add: in_set_enumerate_eq)
  with assms t have "j < length t" by simp
  then show "\<exists>t'. (case x of (j, raw) \<Rightarrow> \<lambda>gh. if raw \<le> 0 then setitem gh j 0 else Inr gh) t = Inr t' \<and>
                  length t' = length gh"
    unfolding jr using t by simp
qed

text \<open>Lines 155--189 on a cache of the right shapes.\<close>

lemma backward_dense_Inr:
  assumes W2: "mat_shape (W2 m) (length (vocab m)) (nat (hidden_dim m))"
    and W1: "mat_shape (W1 m) (nat (hidden_dim m)) (nat (context_size m * embed_dim m))"
    and ps: "length (probs c) = length (vocab m)" and t: "t < length (vocab m)"
    and hid: "length (hidden c) = nat (hidden_dim m)"
    and hraw: "length (hidden_raw c) = nat (hidden_dim m)"
    and xf: "length (x_flat c) = nat (context_size m * embed_dim m)"
  shows "\<exists>gW1 gb1 gW2 gb2 gx. backward_dense m c t = Inr (gW1, gb1, gW2, gb2, gx) \<and>
           mat_shape gW1 (nat (hidden_dim m)) (nat (context_size m * embed_dim m)) \<and>
           length gb1 = nat (hidden_dim m) \<and>
           mat_shape gW2 (length (vocab m)) (nat (hidden_dim m)) \<and>
           length gb2 = length (vocab m) \<and>
           length gx = nat (context_size m * embed_dim m)"
proof -
  let ?V = "length (vocab m)"
  let ?H = "nat (hidden_dim m)"
  let ?I = "nat (context_size m * embed_dim m)"
  define gl where "gl = (probs c)[t := probs c ! t - 1]"
  have gl: "update (probs c) t (augment (-) (Inr 1)) = Inr gl"
    unfolding gl_def by (rule update_Inr) (use ps t in simp_all)
  have lgl: "length gl = ?V" by (simp add: gl_def ps)
  have z2: "mat_shape (fst (zeros (int ?V) (hidden_dim m), replicate ?H (0::real))) ?V ?H \<and>
            length (snd (zeros (int ?V) (hidden_dim m), replicate ?H (0::real))) = ?H"
    using mat_shape_zeros [of "int ?V" "hidden_dim m"] by simp
  from nested_loop_shape [where I = "\<lambda>s. mat_shape (fst s) ?V ?H \<and> length (snd s) = ?H"
      and body = "output_layer_step m gl (hidden c)" and R = ?V and C = ?H, OF _ z2]
    output_layer_step_shape [OF lgl hid W2]
  obtain gW2 gh0 where o: "for_each [0..<?V] (\<lambda>i. for_each [0..<?H] (output_layer_step m gl (hidden c) i))
      (zeros (int ?V) (hidden_dim m), replicate ?H 0) = Inr (gW2, gh0)"
    "mat_shape gW2 ?V ?H" "length gh0 = ?H"
    by (metis fst_conv snd_conv surj_pair)
  from relu_backward_shape [of "hidden_raw c" gh0] hraw o(3)
  obtain gh where r: "relu_backward (hidden_raw c) gh0 = Inr gh" "length gh = ?H" by auto
  have z1: "mat_shape (fst (zeros (hidden_dim m) (context_size m * embed_dim m), replicate ?I (0::real))) ?H ?I \<and>
            length (snd (zeros (hidden_dim m) (context_size m * embed_dim m), replicate ?I (0::real))) = ?I"
    using mat_shape_zeros [of "hidden_dim m" "context_size m * embed_dim m"] by simp
  from nested_loop_shape [where I = "\<lambda>s. mat_shape (fst s) ?H ?I \<and> length (snd s) = ?I"
      and body = "hidden_layer_step m gh (x_flat c)" and R = ?H and C = ?I, OF _ z1]
    hidden_layer_step_shape [OF r(2) xf W1]
  obtain gW1 gx where h: "for_each [0..<?H] (\<lambda>j. for_each [0..<?I] (hidden_layer_step m gh (x_flat c) j))
      (zeros (hidden_dim m) (context_size m * embed_dim m), replicate ?I 0) = Inr (gW1, gx)"
    "mat_shape gW1 ?H ?I" "length gx = ?I"
    by (metis fst_conv snd_conv surj_pair)
  have "backward_dense m c t = Inr (gW1, gh, gW2, gl, gx)"
    unfolding backward_dense_def by (simp add: Let_def gl o(1) r(1) h(1))
  with o(2) r(2) h(2,3) lgl show ?thesis by blast
qed


section \<open>Backward pass: claim C1\<close>

text \<open>
  Lines 191--194. After the positions below \<open>p\<close> have been processed, element \<open>d\<close> of row
  \<open>v\<close> holds the sum of the flattened-input gradient over the positions below \<open>p\<close> that
  hold \<open>v\<close>.
\<close>

lemma backward_embedding_Inr:
  assumes xs: "\<forall>v\<in>set xs. v < length (vocab m)"
    and gx: "length xs * nat (embed_dim m) \<le> length gx"
  shows "\<exists>gE. backward_embedding m xs gx = Inr gE \<and>
           mat_shape gE (length (vocab m)) (nat (embed_dim m)) \<and>
           (\<forall>v<length (vocab m). \<forall>d<nat (embed_dim m).
              gE ! v ! d = (\<Sum>p | p < length xs \<and> xs ! p = v. gx ! (p * nat (embed_dim m) + d)))"
proof -
  let ?V = "length (vocab m)"
  let ?D = "nat (embed_dim m)"
  let ?S = "\<lambda>p v d. (\<Sum>q | q < p \<and> xs ! q = v. gx ! (q * ?D + d))"
  let ?P = "\<lambda>p gE. mat_shape gE ?V ?D \<and> (\<forall>v<?V. \<forall>d<?D. gE ! v ! d = ?S p v d)"
  let ?body = "\<lambda>(pos, vocab_idx). for_each [0..<?D] (\<lambda>d gE.
         update2 gE vocab_idx d (augment (+) (getitem gx (pos * ?D + d))))"
  have init: "?P 0 (zeros (int ?V) (embed_dim m))"
    using mat_shape_zeros [of "int ?V" "embed_dim m"] by (simp add: zeros_def)
  have step: "\<exists>t'. ?body (p, xs ! p) t = Inr t' \<and> ?P (Suc p) t'"
    if p: "p < length xs" and t: "?P p t" for p t
  proof -
    let ?v = "xs ! p"
    from p xs have v: "?v < ?V" by simp
    from t have sh: "mat_shape t ?V ?D" by simp
    then have lt: "?v < length t" "length (t ! ?v) = ?D" using v by (simp_all add: mat_shape_nth)
    have bound: "p * ?D + d < length gx" if "d < ?D" for d
    proof -
      have "p * ?D + d < Suc p * ?D" using that by simp
      also have "\<dots> \<le> length xs * ?D" using p by (simp add: Suc_leI mult_le_mono1 del: mult_Suc)
      finally show ?thesis using gx by simp
    qed
    have loop: "for_each [0..<?D] (\<lambda>d gE. update2 gE ?v d (augment (+) (getitem gx (p * ?D + d)))) t =
          Inr (t[?v := map (\<lambda>d. t ! ?v ! d + gx ! (p * ?D + d)) [0..<?D]])"
      by (rule row_loop_Inr [OF lt]) (simp add: bound)
    let ?t' = "t[?v := map (\<lambda>d. t ! ?v ! d + gx ! (p * ?D + d)) [0..<?D]]"
    have sh': "mat_shape ?t' ?V ?D"
      unfolding mat_shape_nth
    proof (intro conjI allI impI)
      show "length ?t' = ?V" using sh by (simp add: mat_shape_nth)
      fix i assume "i < ?V"
      then show "length (?t' ! i) = ?D"
        using sh lt(1) by (cases "i = ?v") (simp_all add: mat_shape_nth)
    qed
    have val: "?t' ! v ! d = ?S (Suc p) v d" if vd: "v < ?V" "d < ?D" for v d
    proof (cases "v = ?v")
      case True
      have set: "{q. q < Suc p \<and> xs ! q = v} = insert p {q. q < p \<and> xs ! q = v}"
        using True by (auto simp add: less_Suc_eq)
      have "?t' ! v ! d = t ! v ! d + gx ! (p * ?D + d)"
        using True lt(1) vd(2) by simp
      also have "t ! v ! d = ?S p v d" using t vd by simp
      finally show ?thesis unfolding set by simp
    next
      case False
      have set: "{q. q < Suc p \<and> xs ! q = v} = {q. q < p \<and> xs ! q = v}"
        using False by (auto simp add: less_Suc_eq)
      have "?t' ! v ! d = t ! v ! d" using False by simp
      also have "\<dots> = ?S p v d" using t vd by simp
      finally show ?thesis unfolding set .
    qed
    from loop sh' val show ?thesis by simp
  qed
  from for_each_enumerate_inv [of ?P "zeros (int ?V) (embed_dim m)" xs ?body, OF init step]
  show ?thesis unfolding backward_embedding_def by blast
qed

text \<open>The Gradient Engine on the cache of a forward evaluation.\<close>

lemma backward_Inr:
  assumes wf: "wf_model m" and len: "length xs = nat (context_size m)"
    and xs: "\<forall>v\<in>set xs. v < length (vocab m)" and t: "t < length (vocab m)"
    and fwd: "forward m xs = Inr (ps, c)"
  shows "\<exists>g gW1 gb1 gW2 gb2 gx.
           backward_dense m c t = Inr (gW1, gb1, gW2, gb2, gx) \<and>
           backward m c t = Inr g \<and>
           g = \<lparr>grad_E = grad_E g, grad_W1 = gW1, grad_b1 = gb1, grad_W2 = gW2, grad_b2 = gb2\<rparr> \<and>
           length gx = nat (context_size m) * nat (embed_dim m) \<and>
           mat_shape (grad_E g) (length (vocab m)) (nat (embed_dim m)) \<and>
           mat_shape (grad_W1 g) (nat (hidden_dim m)) (nat (context_size m * embed_dim m)) \<and>
           length (grad_b1 g) = nat (hidden_dim m) \<and>
           mat_shape (grad_W2 g) (length (vocab m)) (nat (hidden_dim m)) \<and>
           length (grad_b2 g) = length (vocab m) \<and>
           (\<forall>v<length (vocab m). \<forall>d<nat (embed_dim m).
              grad_E g ! v ! d =
                (\<Sum>p | p < length xs \<and> xs ! p = v. gx ! (p * nat (embed_dim m) + d)))"
proof -
  from forward_total [OF wf xs] fwd have c: "length ps = length (vocab m)" "x_indices c = xs"
    "length (x_flat c) = length xs * nat (embed_dim m)" "length (hidden c) = nat (hidden_dim m)"
    "length (hidden_raw c) = nat (hidden_dim m)" "probs c = ps"
    by auto
  have mul: "nat (context_size m * embed_dim m) = nat (context_size m) * nat (embed_dim m)"
    using wf_shapes(10) [OF wf] by (rule nat_mult_distrib)
  from wf have W: "mat_shape (W2 m) (length (vocab m)) (nat (hidden_dim m))"
    "mat_shape (W1 m) (nat (hidden_dim m)) (nat (context_size m * embed_dim m))"
    by (simp_all add: wf_model_def)
  have "length (x_flat c) = nat (context_size m * embed_dim m)" using c(3) len mul by simp
  from backward_dense_Inr [OF W _ t c(4,5) this] c(1,6)
  obtain gW1 gb1 gW2 gb2 gx where d: "backward_dense m c t = Inr (gW1, gb1, gW2, gb2, gx)"
    "mat_shape gW1 (nat (hidden_dim m)) (nat (context_size m * embed_dim m))"
    "length gb1 = nat (hidden_dim m)" "mat_shape gW2 (length (vocab m)) (nat (hidden_dim m))"
    "length gb2 = length (vocab m)" "length gx = nat (context_size m * embed_dim m)"
    by auto
  have "length xs * nat (embed_dim m) \<le> length gx" using d(6) len mul by simp
  from backward_embedding_Inr [OF xs this] obtain gE where
    e: "backward_embedding m xs gx = Inr gE" "mat_shape gE (length (vocab m)) (nat (embed_dim m))"
    "\<forall>v<length (vocab m). \<forall>d<nat (embed_dim m).
        gE ! v ! d = (\<Sum>p | p < length xs \<and> xs ! p = v. gx ! (p * nat (embed_dim m) + d))"
    by blast
  let ?g = "\<lparr>grad_E = gE, grad_W1 = gW1, grad_b1 = gb1, grad_W2 = gW2, grad_b2 = gb2\<rparr>"
  have b: "backward m c t = Inr ?g"
    unfolding backward_def by (simp add: d(1) c(2) e(1))
  show ?thesis
    apply (rule exI [of _ ?g], rule exI [of _ gW1], rule exI [of _ gb1], rule exI [of _ gW2],
        rule exI [of _ gb2], rule exI [of _ gx])
    using d b e(2,3) mul by simp
qed

text \<open>
  Claim C1. For the cache of a forward evaluation on a window \<open>xs\<close> of \<^verbatim>\<open>context\<close> valid
  indices and a valid target index, the Gradient Engine returns, and its embedding
  gradient is the scatter-accumulation of the flattened-input gradient \<open>gx\<close> (the
  \<^verbatim>\<open>grad_x_flat\<close> the same call computes): entry \<open>d\<close> of row \<open>v\<close> is the sum, over all
  positions \<open>p\<close> of the window that hold \<open>v\<close>, of \<open>gx[p * embed_dim + d]\<close>. A vocabulary
  index occurring at several positions receives the sum of their slices; a row whose
  index does not occur is zero.
\<close>

theorem embedding_gradient_scatter:
  assumes "wf_model m" and "length xs = nat (context_size m)"
    and "\<forall>v\<in>set xs. v < length (vocab m)" and "t < length (vocab m)"
    and "forward m xs = Inr (ps, c)"
  shows "\<exists>g gW1 gb1 gW2 gb2 gx.
           backward_dense m c t = Inr (gW1, gb1, gW2, gb2, gx) \<and>
           backward m c t = Inr g \<and>
           length gx = nat (context_size m) * nat (embed_dim m) \<and>
           mat_shape (grad_E g) (length (vocab m)) (nat (embed_dim m)) \<and>
           (\<forall>v<length (vocab m). \<forall>d<nat (embed_dim m).
              grad_E g ! v ! d =
                (\<Sum>p | p < length xs \<and> xs ! p = v. gx ! (p * nat (embed_dim m) + d)))"
  using backward_Inr [OF assms] by blast

theorem embedding_gradient_scatter_witness:
  "wf_model abc_model \<and> length [1, 1 :: nat] = nat (context_size abc_model) \<and>
   2 < length (vocab abc_model) \<and>
   (\<exists>ps c g gW1 gb1 gW2 gb2 gx.
      forward abc_model [1, 1] = Inr (ps, c) \<and>
      backward_dense abc_model c 2 = Inr (gW1, gb1, gW2, gb2, gx) \<and>
      backward abc_model c 2 = Inr g \<and>
      grad_E g ! 1 ! 0 = gx ! 0 + gx ! 3 \<and> grad_E g ! 0 ! 0 = 0)"
proof -
  have h: "length [1, 1 :: nat] = nat (context_size abc_model)"
    "\<forall>v\<in>set [1, 1 :: nat]. v < length (vocab abc_model)" "2 < length (vocab abc_model)"
    and d: "nat (embed_dim abc_model) = 3" "length (vocab abc_model) = 3"
    by (simp_all add: abc_model_def)
  from forward_total [OF wf_abc_model h(2)] obtain ps c where
    f: "forward abc_model [1, 1] = Inr (ps, c)" by blast
  from embedding_gradient_scatter [OF wf_abc_model h f]
  obtain g gW1 gb1 gW2 gb2 gx where
    b: "backward_dense abc_model c 2 = Inr (gW1, gb1, gW2, gb2, gx)"
      "backward abc_model c 2 = Inr g"
    and s: "\<forall>v<length (vocab abc_model). \<forall>d<nat (embed_dim abc_model).
              grad_E g ! v ! d =
                (\<Sum>p | p < length [1, 1 :: nat] \<and> [1, 1 :: nat] ! p = v.
                    gx ! (p * nat (embed_dim abc_model) + d))"
    by blast
  have s1: "{p. p < length [1, 1 :: nat] \<and> [1, 1 :: nat] ! p = 1} = {0, 1}"
    by (auto simp add: less_Suc_eq nth_Cons')
  have s0: "{p. p < length [1, 1 :: nat] \<and> [1, 1 :: nat] ! p = 0} = {}"
    by (auto simp add: less_Suc_eq nth_Cons')
  have "grad_E g ! 1 ! 0 = gx ! 0 + gx ! 3"
    using s [rule_format, of 1 0] unfolding s1 d by simp
  moreover have "grad_E g ! 0 ! 0 = 0"
    using s [rule_format, of 0 0] unfolding s0 d by simp
  ultimately show ?thesis using wf_abc_model h(1,3) f b by blast
qed


section \<open>Per-sample gradients\<close>

lemma wf_dataset:
  assumes "wf_model m" "q < length (inputs (dataset m))"
  shows "length (inputs (dataset m) ! q) = nat (context_size m)"
    and "\<forall>v\<in>set (inputs (dataset m) ! q). v < length (vocab m)"
    and "targets (dataset m) ! q < length (vocab m)"
    and "zip (inputs (dataset m)) (targets (dataset m)) ! q =
         (inputs (dataset m) ! q, targets (dataset m) ! q)"
    and "length (zip (inputs (dataset m)) (targets (dataset m))) = length (inputs (dataset m))"
proof -
  from assms(1) have len: "length (inputs (dataset m)) = length (targets (dataset m))"
    and inp: "\<forall>x\<in>set (inputs (dataset m)).
                length x = nat (context_size m) \<and> (\<forall>v\<in>set x. v < length (vocab m))"
    and tgt: "\<forall>t\<in>set (targets (dataset m)). t < length (vocab m)"
    by (simp_all add: wf_model_def)
  have "inputs (dataset m) ! q \<in> set (inputs (dataset m))" using assms(2) by (rule nth_mem)
  with inp show "length (inputs (dataset m) ! q) = nat (context_size m)"
    "\<forall>v\<in>set (inputs (dataset m) ! q). v < length (vocab m)" by blast+
  have "targets (dataset m) ! q \<in> set (targets (dataset m))"
    using assms(2) len by (intro nth_mem) simp
  with tgt show "targets (dataset m) ! q < length (vocab m)" by blast
  show "zip (inputs (dataset m)) (targets (dataset m)) ! q =
         (inputs (dataset m) ! q, targets (dataset m) ! q)"
    using assms(2) len by simp
  show "length (zip (inputs (dataset m)) (targets (dataset m))) = length (inputs (dataset m))"
    using len by simp
qed

text \<open>
  The per-sample gradient of the specification is what \<^verbatim>\<open>_backward\<close> returns on the cache
  of \<^verbatim>\<open>_forward\<close> for that dataset pair.
\<close>

lemma sample_gradient_backward:
  assumes wf: "wf_model m" and q: "q < length (inputs (dataset m))"
  shows "\<exists>ps c. forward m (inputs (dataset m) ! q) = Inr (ps, c) \<and>
           backward m c (targets (dataset m) ! q) = Inr (sample_gradient m q) \<and>
           targets (dataset m) ! q < length ps \<and> (\<forall>p\<in>set ps. 0 < p)"
    and "mat_shape (grad_E (sample_gradient m q)) (length (vocab m)) (nat (embed_dim m))"
    and "mat_shape (grad_W1 (sample_gradient m q)) (nat (hidden_dim m))
           (nat (context_size m * embed_dim m))"
    and "length (grad_b1 (sample_gradient m q)) = nat (hidden_dim m)"
    and "mat_shape (grad_W2 (sample_gradient m q)) (length (vocab m)) (nat (hidden_dim m))"
    and "length (grad_b2 (sample_gradient m q)) = length (vocab m)"
proof -
  note d = wf_dataset [OF wf q]
  from forward_total [OF wf d(2)] obtain ps c where
    f: "forward m (inputs (dataset m) ! q) = Inr (ps, c)" "length ps = length (vocab m)"
      "\<forall>p\<in>set ps. 0 < p"
    by blast
  from backward_Inr [OF wf d(1,2,3) f(1)] obtain g where
    g: "backward m c (targets (dataset m) ! q) = Inr g"
      "mat_shape (grad_E g) (length (vocab m)) (nat (embed_dim m))"
      "mat_shape (grad_W1 g) (nat (hidden_dim m)) (nat (context_size m * embed_dim m))"
      "length (grad_b1 g) = nat (hidden_dim m)"
      "mat_shape (grad_W2 g) (length (vocab m)) (nat (hidden_dim m))"
      "length (grad_b2 g) = length (vocab m)"
    by blast
  have sg: "sample_gradient m q = g" by (simp add: sample_gradient_def f(1) g(1))
  show "\<exists>ps c. forward m (inputs (dataset m) ! q) = Inr (ps, c) \<and>
           backward m c (targets (dataset m) ! q) = Inr (sample_gradient m q) \<and>
           targets (dataset m) ! q < length ps \<and> (\<forall>p\<in>set ps. 0 < p)"
    using f g(1) d(3) sg by auto
  show "mat_shape (grad_E (sample_gradient m q)) (length (vocab m)) (nat (embed_dim m))"
    "mat_shape (grad_W1 (sample_gradient m q)) (nat (hidden_dim m))
           (nat (context_size m * embed_dim m))"
    "length (grad_b1 (sample_gradient m q)) = nat (hidden_dim m)"
    "mat_shape (grad_W2 (sample_gradient m q)) (length (vocab m)) (nat (hidden_dim m))"
    "length (grad_b2 (sample_gradient m q)) = length (vocab m)"
    using g(2-6) sg by simp_all
qed

lemma sum_gradient_sel:
  "grad_E (sum_gradient m k) =
     map (\<lambda>i. map (\<lambda>j. \<Sum>q<k. grad_E (sample_gradient m q) ! i ! j)
                          [0..<nat (embed_dim m)]) [0..<length (vocab m)]"
  "grad_W1 (sum_gradient m k) =
     map (\<lambda>i. map (\<lambda>j. \<Sum>q<k. grad_W1 (sample_gradient m q) ! i ! j)
                          [0..<nat (context_size m * embed_dim m)]) [0..<nat (hidden_dim m)]"
  "grad_b1 (sum_gradient m k) =
     map (\<lambda>i. \<Sum>q<k. grad_b1 (sample_gradient m q) ! i) [0..<nat (hidden_dim m)]"
  "grad_W2 (sum_gradient m k) =
     map (\<lambda>i. map (\<lambda>j. \<Sum>q<k. grad_W2 (sample_gradient m q) ! i ! j)
                          [0..<nat (hidden_dim m)]) [0..<length (vocab m)]"
  "grad_b2 (sum_gradient m k) =
     map (\<lambda>i. \<Sum>q<k. grad_b2 (sample_gradient m q) ! i) [0..<length (vocab m)]"
  by (simp_all add: sum_gradient_def)

lemma sum_gradient_0: "sum_gradient m 0 = zero_grads m"
  by (simp add: sum_gradient_def zero_grads_def zeros_def map_replicate_const)


section \<open>Accumulating the gradients\<close>

lemma map2d_cong:
  assumes "\<And>i j. i < R \<Longrightarrow> j < C \<Longrightarrow> A i j = B i j"
  shows "map (\<lambda>i. map (A i) [0..<C]) [0..<R] = map (\<lambda>i. map (B i) [0..<C]) [0..<R]"
  using assms by simp

lemma mat_loop_binop:
  assumes "mat_shape M R C" "mat_shape G R C"
  shows "mat_loop R C (\<lambda>i j. augment opr (getitem2 G i j)) M =
         Inr (map (\<lambda>i. map (\<lambda>j. opr (M ! i ! j) (G ! i ! j)) [0..<C]) [0..<R])"
  by (rule mat_loop_Inr [OF assms(1)]) (rule augment_getitem2 [OF assms(2)])

lemma mat_vec_loop_binop:
  assumes "mat_shape M R C" "mat_shape G R C" "length v = R" "length g = R"
  shows "mat_vec_loop R C (\<lambda>i j. augment opr (getitem2 G i j)) (\<lambda>i. augment opr (getitem g i)) (M, v) =
         Inr (map (\<lambda>i. map (\<lambda>j. opr (M ! i ! j) (G ! i ! j)) [0..<C]) [0..<R],
              map (\<lambda>i. opr (v ! i) (g ! i)) [0..<R])"
proof (rule mat_vec_loop_Inr [OF assms(1,3)])
  show "augment opr (getitem2 G i j) (M ! i ! j) = Inr (opr (M ! i ! j) (G ! i ! j))"
    if "i < R" "j < C" for i j
    using that by (rule augment_getitem2 [OF assms(2)])
  show "augment opr (getitem g i) (v ! i) = Inr (opr (v ! i) (g ! i))" if "i < R" for i
    using that assms(4) by simp
qed

lemma mat_loop_scale:
  assumes "mat_shape M R C"
  shows "mat_loop R C (\<lambda>i j. augment (*) (Inr c)) M =
         Inr (map (\<lambda>i. map (\<lambda>j. M ! i ! j * c) [0..<C]) [0..<R])"
  by (rule mat_loop_Inr [OF assms]) simp

lemma mat_vec_loop_scale:
  assumes "mat_shape M R C" "length v = R"
  shows "mat_vec_loop R C (\<lambda>i j. augment (*) (Inr c)) (\<lambda>i. augment (*) (Inr c)) (M, v) =
         Inr (map (\<lambda>i. map (\<lambda>j. M ! i ! j * c) [0..<C]) [0..<R], map (\<lambda>i. v ! i * c) [0..<R])"
  by (rule mat_vec_loop_Inr [OF assms]) simp_all

lemma map2_vec_index:
  assumes "length v = R" "length g = R"
  shows "map2 f v g = map (\<lambda>i. f (v ! i) (g ! i)) [0..<R]"
  using assms by (intro nth_equalityI) simp_all

lemma map2_mat_index:
  assumes "mat_shape M R C" "mat_shape G R C"
  shows "map2 (map2 f) M G = map (\<lambda>i. map (\<lambda>j. f (M ! i ! j) (G ! i ! j)) [0..<C]) [0..<R]"
proof -
  from assms have l: "length M = R" "length G = R"
    and r: "\<And>i. i < R \<Longrightarrow> length (M ! i) = C" "\<And>i. i < R \<Longrightarrow> length (G ! i) = C"
    by (simp_all add: mat_shape_nth)
  have "map2 (map2 f) M G = map (\<lambda>i. map2 f (M ! i) (G ! i)) [0..<R]"
    by (rule map2_vec_index [OF l])
  also have "\<dots> = map (\<lambda>i. map (\<lambda>j. f (M ! i ! j) (G ! i ! j)) [0..<C]) [0..<R]"
    using r by (simp add: map2_vec_index [where R = C])
  finally show ?thesis .
qed

lemma sum_gradient_shape:
  "mat_shape (grad_E (sum_gradient m k)) (length (vocab m)) (nat (embed_dim m))"
  "mat_shape (grad_W1 (sum_gradient m k)) (nat (hidden_dim m)) (nat (context_size m * embed_dim m))"
  "length (grad_b1 (sum_gradient m k)) = nat (hidden_dim m)"
  "mat_shape (grad_W2 (sum_gradient m k)) (length (vocab m)) (nat (hidden_dim m))"
  "length (grad_b2 (sum_gradient m k)) = length (vocab m)"
  by (simp_all add: sum_gradient_sel)

text \<open>Lines 236--252: one dataset pair adds its gradient to the accumulators.\<close>

lemma accumulate_sample_step:
  assumes wf: "wf_model m" and q: "q < length (inputs (dataset m))"
  shows "\<exists>l. accumulate_sample m (inputs (dataset m) ! q, targets (dataset m) ! q)
                (l0, sum_gradient m q) = Inr (l, sum_gradient m (Suc q))"
proof -
  let ?g = "sample_gradient m q"
  let ?s = "sum_gradient m q"
  note sg = sample_gradient_backward [OF wf q]
  from sg(1) obtain ps c where
    f: "forward m (inputs (dataset m) ! q) = Inr (ps, c)"
      "backward m c (targets (dataset m) ! q) = Inr ?g"
      "targets (dataset m) ! q < length ps" "\<forall>p\<in>set ps. 0 < p"
    by blast
  from f(3,4) have pos: "0 < ps ! (targets (dataset m) ! q)" by simp
  have e: "mat_loop (length (vocab m)) (nat (embed_dim m))
             (\<lambda>i j. augment (+) (getitem2 (grad_E ?g) i j)) (grad_E ?s) =
           Inr (grad_E (sum_gradient m (Suc q)))"
    unfolding mat_loop_binop [OF sum_gradient_shape(1) sg(2)]
    by (simp add: sum_gradient_sel)
  have w1: "mat_vec_loop (nat (hidden_dim m)) (nat (context_size m * embed_dim m))
             (\<lambda>i j. augment (+) (getitem2 (grad_W1 ?g) i j))
             (\<lambda>i. augment (+) (getitem (grad_b1 ?g) i)) (grad_W1 ?s, grad_b1 ?s) =
           Inr (grad_W1 (sum_gradient m (Suc q)), grad_b1 (sum_gradient m (Suc q)))"
    unfolding mat_vec_loop_binop [OF sum_gradient_shape(2) sg(3) sum_gradient_shape(3) sg(4)]
    by (simp add: sum_gradient_sel)
  have w2: "mat_vec_loop (length (vocab m)) (nat (hidden_dim m))
             (\<lambda>i j. augment (+) (getitem2 (grad_W2 ?g) i j))
             (\<lambda>i. augment (+) (getitem (grad_b2 ?g) i)) (grad_W2 ?s, grad_b2 ?s) =
           Inr (grad_W2 (sum_gradient m (Suc q)), grad_b2 (sum_gradient m (Suc q)))"
    unfolding mat_vec_loop_binop [OF sum_gradient_shape(4) sg(5) sum_gradient_shape(5) sg(6)]
    by (simp add: sum_gradient_sel)
  show ?thesis
    unfolding accumulate_sample_def using pos
    by (simp add: f(1,2,3) math_log_def e w1 w2 Let_def)
qed

lemma accumulate_loop:
  assumes wf: "wf_model m"
  shows "\<exists>l. for_each (zip (inputs (dataset m)) (targets (dataset m))) (accumulate_sample m)
               (0, zero_grads m) = Inr (l, sum_gradient m (length (inputs (dataset m))))"
proof -
  let ?ps = "zip (inputs (dataset m)) (targets (dataset m))"
  let ?N = "length (inputs (dataset m))"
  let ?P = "\<lambda>k (s :: real \<times> grads). snd s = sum_gradient m k"
  have len: "length ?ps = ?N" using wf by (simp add: wf_model_def)
  have init: "?P 0 (0, zero_grads m)" by (simp add: sum_gradient_0)
  have step: "\<exists>t'. accumulate_sample m (?ps ! k) t = Inr t' \<and> ?P (Suc k) t'"
    if kl: "k < length ?ps" and pk: "?P k t" for k t
  proof -
    from kl len have k: "k < ?N" by simp
    obtain l0 where t: "t = (l0, sum_gradient m k)" using pk by (cases t) auto
    from accumulate_sample_step [OF wf k, of l0] wf_dataset(4) [OF wf k] t
    show ?thesis by auto
  qed
  from for_each_nth_inv [of ?P "(0, zero_grads m)" ?ps "accumulate_sample m", OF init step]
  show ?thesis unfolding len by (metis prod.collapse)
qed


section \<open>One epoch, training and loss\<close>

lemma mean_gradient_sel:
  "grad_E (mean_gradient m) =
     map (\<lambda>i. map (\<lambda>j. (\<Sum>q<length (inputs (dataset m)). grad_E (sample_gradient m q) ! i ! j) /
                         real (length (inputs (dataset m))))
              [0..<nat (embed_dim m)]) [0..<length (vocab m)]"
  "grad_W1 (mean_gradient m) =
     map (\<lambda>i. map (\<lambda>j. (\<Sum>q<length (inputs (dataset m)). grad_W1 (sample_gradient m q) ! i ! j) /
                         real (length (inputs (dataset m))))
              [0..<nat (context_size m * embed_dim m)]) [0..<nat (hidden_dim m)]"
  "grad_b1 (mean_gradient m) =
     map (\<lambda>i. (\<Sum>q<length (inputs (dataset m)). grad_b1 (sample_gradient m q) ! i) /
               real (length (inputs (dataset m)))) [0..<nat (hidden_dim m)]"
  "grad_W2 (mean_gradient m) =
     map (\<lambda>i. map (\<lambda>j. (\<Sum>q<length (inputs (dataset m)). grad_W2 (sample_gradient m q) ! i ! j) /
                         real (length (inputs (dataset m))))
              [0..<nat (hidden_dim m)]) [0..<length (vocab m)]"
  "grad_b2 (mean_gradient m) =
     map (\<lambda>i. (\<Sum>q<length (inputs (dataset m)). grad_b2 (sample_gradient m q) ! i) /
               real (length (inputs (dataset m)))) [0..<length (vocab m)]"
  by (simp_all add: mean_gradient_def Let_def sum_gradient_sel comp_def)

lemma mean_gradient_shape:
  "mat_shape (grad_E (mean_gradient m)) (length (vocab m)) (nat (embed_dim m))"
  "mat_shape (grad_W1 (mean_gradient m)) (nat (hidden_dim m)) (nat (context_size m * embed_dim m))"
  "length (grad_b1 (mean_gradient m)) = nat (hidden_dim m)"
  "mat_shape (grad_W2 (mean_gradient m)) (length (vocab m)) (nat (hidden_dim m))"
  "length (grad_b2 (mean_gradient m)) = length (vocab m)"
  by (simp_all add: mean_gradient_sel)

text \<open>Lines 255--266: multiplying the sums by \<^verbatim>\<open>inv_n\<close> gives the mean gradient.\<close>

lemma average_grads_Inr:
  "average_grads m (1 / real (length (inputs (dataset m))))
     (sum_gradient m (length (inputs (dataset m)))) = Inr (mean_gradient m)"
proof -
  let ?N = "length (inputs (dataset m))"
  let ?s = "sum_gradient m ?N"
  have e: "mat_loop (length (vocab m)) (nat (embed_dim m))
             (\<lambda>i j. augment (*) (Inr (1 / real ?N))) (grad_E ?s) = Inr (grad_E (mean_gradient m))"
    unfolding mat_loop_scale [OF sum_gradient_shape(1)]
    by (simp add: sum_gradient_sel mean_gradient_sel)
  have w1: "mat_vec_loop (nat (hidden_dim m)) (nat (context_size m * embed_dim m))
              (\<lambda>i j. augment (*) (Inr (1 / real ?N))) (\<lambda>i. augment (*) (Inr (1 / real ?N)))
              (grad_W1 ?s, grad_b1 ?s) =
            Inr (grad_W1 (mean_gradient m), grad_b1 (mean_gradient m))"
    unfolding mat_vec_loop_scale [OF sum_gradient_shape(2,3)]
    by (simp add: sum_gradient_sel mean_gradient_sel)
  have w2: "mat_vec_loop (length (vocab m)) (nat (hidden_dim m))
              (\<lambda>i j. augment (*) (Inr (1 / real ?N))) (\<lambda>i. augment (*) (Inr (1 / real ?N)))
              (grad_W2 ?s, grad_b2 ?s) =
            Inr (grad_W2 (mean_gradient m), grad_b2 (mean_gradient m))"
    unfolding mat_vec_loop_scale [OF sum_gradient_shape(4,5)]
    by (simp add: sum_gradient_sel mean_gradient_sel)
  show ?thesis unfolding average_grads_def by (simp add: e w1 w2)
qed

text \<open>\<^verbatim>\<open>_apply_grads\<close> with the mean gradient is the specification's update.\<close>

lemma apply_grads_Inr:
  assumes wf: "wf_model m"
  shows "apply_grads m (grad_E (mean_gradient m)) (grad_W1 (mean_gradient m))
           (grad_b1 (mean_gradient m)) (grad_W2 (mean_gradient m)) (grad_b2 (mean_gradient m)) =
         Inr (full_batch_step m)"
proof -
  let ?a = "mean_gradient m"
  let ?f = "\<lambda>p g. p - learning_rate m * g"
  from wf have sh: "mat_shape (E m) (length (vocab m)) (nat (embed_dim m))"
    "mat_shape (W1 m) (nat (hidden_dim m)) (nat (context_size m * embed_dim m))"
    "length (b1 m) = nat (hidden_dim m)"
    "mat_shape (W2 m) (length (vocab m)) (nat (hidden_dim m))"
    "length (b2 m) = length (vocab m)"
    by (simp_all add: wf_model_def)
  have lE: "length (E m) = length (vocab m)" using sh(1) by (simp add: mat_shape_def)
  have e: "mat_loop (length (E m)) (nat (embed_dim m))
             (\<lambda>i j. augment ?f (getitem2 (grad_E ?a) i j)) (E m) =
           Inr (map2 (map2 ?f) (E m) (grad_E ?a))"
    unfolding lE mat_loop_binop [OF sh(1) mean_gradient_shape(1)]
      map2_mat_index [OF sh(1) mean_gradient_shape(1)] ..
  have w1: "mat_vec_loop (nat (hidden_dim m)) (nat (context_size m * embed_dim m))
              (\<lambda>i j. augment ?f (getitem2 (grad_W1 ?a) i j))
              (\<lambda>i. augment ?f (getitem (grad_b1 ?a) i)) (W1 m, b1 m) =
            Inr (map2 (map2 ?f) (W1 m) (grad_W1 ?a), map2 ?f (b1 m) (grad_b1 ?a))"
    unfolding mat_vec_loop_binop [OF sh(2) mean_gradient_shape(2) sh(3) mean_gradient_shape(3)]
      map2_mat_index [OF sh(2) mean_gradient_shape(2)]
      map2_vec_index [OF sh(3) mean_gradient_shape(3)] ..
  have w2: "mat_vec_loop (length (vocab m)) (nat (hidden_dim m))
              (\<lambda>i j. augment ?f (getitem2 (grad_W2 ?a) i j))
              (\<lambda>i. augment ?f (getitem (grad_b2 ?a) i)) (W2 m, b2 m) =
            Inr (map2 (map2 ?f) (W2 m) (grad_W2 ?a), map2 ?f (b2 m) (grad_b2 ?a))"
    unfolding mat_vec_loop_binop [OF sh(4) mean_gradient_shape(4) sh(5) mean_gradient_shape(5)]
      map2_mat_index [OF sh(4) mean_gradient_shape(4)]
      map2_vec_index [OF sh(5) mean_gradient_shape(5)] ..
  show ?thesis
    unfolding apply_grads_def full_batch_step_def Let_def
    by (simp only: e w1 w2 ebind_Inr prod.case)
qed

text \<open>Lines 228--270: one epoch is one full-batch step.\<close>

lemma train_epoch_Inr:
  assumes wf: "wf_model m" and ne: "inputs (dataset m) \<noteq> []"
  shows "\<exists>l. train_epoch m = Inr (full_batch_step m, l)"
proof -
  from accumulate_loop [OF wf] obtain l where
    a: "for_each (zip (inputs (dataset m)) (targets (dataset m))) (accumulate_sample m)
          (0, zero_grads m) = Inr (l, sum_gradient m (length (inputs (dataset m))))"
    by blast
  from ne have d: "truediv 1 (real (length (inputs (dataset m)))) =
                   Inr (1 / real (length (inputs (dataset m))))"
    by (simp add: truediv_def)
  show ?thesis
    unfolding train_epoch_def Let_def
    by (simp only: a d ebind_Inr prod.case average_grads_Inr apply_grads_Inr [OF wf]) blast
qed

lemma full_batch_step_fields:
  "context_size (full_batch_step m) = context_size m"
  "embed_dim (full_batch_step m) = embed_dim m"
  "hidden_dim (full_batch_step m) = hidden_dim m"
  "learning_rate (full_batch_step m) = learning_rate m"
  "vocab (full_batch_step m) = vocab m"
  "stoi (full_batch_step m) = stoi m"
  "itos (full_batch_step m) = itos m"
  "dataset (full_batch_step m) = dataset m"
  by (simp_all add: full_batch_step_def Let_def)

lemma full_batch_step_wf:
  assumes wf: "wf_model m"
  shows "wf_model (full_batch_step m)"
proof -
  let ?a = "mean_gradient m"
  let ?f = "\<lambda>p g. p - learning_rate m * g"
  from wf have sh: "mat_shape (E m) (length (vocab m)) (nat (embed_dim m))"
    "mat_shape (W1 m) (nat (hidden_dim m)) (nat (context_size m * embed_dim m))"
    "length (b1 m) = nat (hidden_dim m)"
    "mat_shape (W2 m) (length (vocab m)) (nat (hidden_dim m))"
    "length (b2 m) = length (vocab m)"
    by (simp_all add: wf_model_def)
  have p: "E (full_batch_step m) = map2 (map2 ?f) (E m) (grad_E ?a)"
    "W1 (full_batch_step m) = map2 (map2 ?f) (W1 m) (grad_W1 ?a)"
    "b1 (full_batch_step m) = map2 ?f (b1 m) (grad_b1 ?a)"
    "W2 (full_batch_step m) = map2 (map2 ?f) (W2 m) (grad_W2 ?a)"
    "b2 (full_batch_step m) = map2 ?f (b2 m) (grad_b2 ?a)"
    by (simp_all add: full_batch_step_def Let_def)
  have s: "mat_shape (E (full_batch_step m)) (length (vocab m)) (nat (embed_dim m))"
    "mat_shape (W1 (full_batch_step m)) (nat (hidden_dim m)) (nat (context_size m * embed_dim m))"
    "length (b1 (full_batch_step m)) = nat (hidden_dim m)"
    "mat_shape (W2 (full_batch_step m)) (length (vocab m)) (nat (hidden_dim m))"
    "length (b2 (full_batch_step m)) = length (vocab m)"
    unfolding p
      map2_mat_index [OF sh(1) mean_gradient_shape(1)]
      map2_mat_index [OF sh(2) mean_gradient_shape(2)]
      map2_mat_index [OF sh(4) mean_gradient_shape(4)]
    using sh(3,5) mean_gradient_shape(3,5) [of m] by simp_all
  from wf s show ?thesis
    unfolding wf_model_def full_batch_step_fields by simp
qed

lemma funpow_step_inv:
  assumes "wf_model m"
  shows "wf_model ((full_batch_step ^^ k) m) \<and> dataset ((full_batch_step ^^ k) m) = dataset m"
  using assms by (induction k) (simp_all add: full_batch_step_wf full_batch_step_fields)

lemma for_each_funpow:
  assumes "I s" and "\<And>x t. x \<in> set xs \<Longrightarrow> I t \<Longrightarrow> f x t = Inr (h t) \<and> I (h t)"
  shows "for_each xs f s = Inr ((h ^^ length xs) s)"
  using assms
proof (induction xs arbitrary: s)
  case Nil
  then show ?case by simp
next
  case (Cons x xs)
  from Cons.prems(2) [of x s] Cons.prems(1) have 1: "f x s = Inr (h s)" "I (h s)" by simp_all
  have "for_each xs f (h s) = Inr ((h ^^ length xs) (h s))"
    by (rule Cons.IH [OF 1(2)]) (use Cons.prems(2) in auto)
  with 1(1) show ?case by (simp add: funpow_swap1)
qed

lemma train_Inr:
  assumes wf: "wf_model m" and ne: "inputs (dataset m) \<noteq> []" and r: "report_every \<noteq> 0"
  shows "train m epochs report_every = Inr ((full_batch_step ^^ nat epochs) m)"
proof -
  let ?I = "\<lambda>t. wf_model t \<and> dataset t = dataset m"
  let ?body = "\<lambda>epoch m'.
       ebind (train_epoch m') (\<lambda>(m'', total_loss).
       ebind (train_report m'' report_every epoch total_loss) (\<lambda>_. Inr m''))"
  have step: "?body x t = Inr (full_batch_step t) \<and> ?I (full_batch_step t)"
    if "x \<in> set [1..epochs]" "?I t" for x t
  proof -
    from that(2) ne have t: "wf_model t" "inputs (dataset t) \<noteq> []" by simp_all
    from train_epoch_Inr [OF t] obtain l where e: "train_epoch t = Inr (full_batch_step t, l)"
      by blast
    have "train_report (full_batch_step t) report_every x l = Inr ()"
      using r t(2) by (simp add: train_report_def truediv_def full_batch_step_fields)
    with e that(2) full_batch_step_wf [OF t(1)] show ?thesis
      by (simp add: full_batch_step_fields)
  qed
  have "?I m" using wf by simp
  from for_each_funpow [of ?I m "[1..epochs]" ?body full_batch_step, OF this step]
  show ?thesis unfolding train_def by simp
qed

text \<open>\<^verbatim>\<open>loss\<close> returns on a well-formed model with a non-empty dataset.\<close>

lemma loss_Inr:
  assumes wf: "wf_model m" and ne: "inputs (dataset m) \<noteq> []"
  shows "\<exists>l. loss m = Inr l"
proof -
  let ?ps = "zip (inputs (dataset m)) (targets (dataset m))"
  let ?body = "\<lambda>(x_idx, target_idx) total_loss.
                 ebind (forward m x_idx) (\<lambda>(ps, _).
                 ebind (getitem ps target_idx) (\<lambda>p.
                 ebind (math_log (p + 1 / 10 ^ 12)) (\<lambda>l. Inr (total_loss + (- l)))))"
  have len: "length ?ps = length (inputs (dataset m))" using wf by (simp add: wf_model_def)
  have step: "\<exists>t'. ?body (?ps ! k) t = Inr t' \<and> True" if k: "k < length ?ps" for k and t :: real
  proof -
    from k len have q: "k < length (inputs (dataset m))" by simp
    from sample_gradient_backward(1) [OF wf q] obtain ps c where
      f: "forward m (inputs (dataset m) ! k) = Inr (ps, c)"
        "targets (dataset m) ! k < length ps" "\<forall>p\<in>set ps. 0 < p"
      by blast
    from f(2,3) have pos: "0 < ps ! (targets (dataset m) ! k)" by simp
    show ?thesis
      unfolding wf_dataset(4) [OF wf q] using pos
      by (simp add: f(1,2) math_log_def)
  qed
  from for_each_nth_inv [of "\<lambda>_ _. True" "0::real" ?ps ?body] step
  obtain total where "for_each ?ps ?body 0 = Inr total" by auto
  then show ?thesis using ne by (simp add: loss_def truediv_def)
qed


section \<open>Training: claims C2 and C10\<close>

lemma for_each_nth_partial:
  assumes "for_each xs f s = Inr s'" and "P 0 s"
    and "\<And>i t t'. i < length xs \<Longrightarrow> P i t \<Longrightarrow> f (xs ! i) t = Inr t' \<Longrightarrow> P (Suc i) t'"
  shows "P (length xs) s'"
  using assms
proof (induction xs arbitrary: s' rule: rev_induct)
  case Nil
  then show ?case by simp
next
  case (snoc x xs)
  from snoc.prems(1) obtain s1 where s1: "for_each xs f s = Inr s1"
    and l: "for_each [x] f s1 = Inr s'"
    unfolding for_each_append ebind_eq_Inr by blast
  from l have "f x s1 = Inr s'" by (cases "f x s1") simp_all
  note s1 = s1 this
  have "P (length xs) s1"
  proof (rule snoc.IH [OF s1(1) snoc.prems(2)])
    fix i t t' assume "i < length xs" "P i t" "f (xs ! i) t = Inr t'"
    with snoc.prems(3) [of i t t'] show "P (Suc i) t'" by (simp add: nth_append)
  qed
  with snoc.prems(3) [of "length xs" s1 s'] s1(2) show ?case by simp
qed

lemma build_dataset_length:
  assumes "build_dataset st ctx text = Inr ds"
  shows "length (inputs ds) = nat (int (length text) - ctx)"
proof -
  let ?P = "\<lambda>k d. length (inputs d) = k"
  have "?P (length [0..<nat (int (length text) - ctx)]) ds"
  proof (rule for_each_nth_partial [where P = ?P, OF assms [unfolded build_dataset_def]])
    show "?P 0 \<lparr>inputs = [], targets = []\<rparr>" by simp
    fix i t t'
    assume "?P i t" "build_dataset_step st ctx text ([0..<nat (int (length text) - ctx)] ! i) t = Inr t'"
    then show "?P (Suc i) t'"
      by (auto simp add: build_dataset_step_def Let_def ebind_eq_Inr)
  qed
  then show ?thesis by simp
qed

lemma construct_dataset_length:
  assumes "construct text ctx edim hdim lr rnd = Inr m"
  shows "ctx < int (length text)"
    and "length (inputs (dataset m)) = nat (int (length text) - ctx)"
proof -
  from assms show lt: "ctx < int (length text)"
    by (auto simp add: construct_def split: if_splits)
  obtain vs st it where bv: "build_vocab text = (vs, st, it)" by (cases "build_vocab text") auto
  from assms lt bv obtain ds where "build_dataset st ctx text = Inr ds" "dataset m = ds"
    by (auto simp add: construct_def ebind_eq_Inr Let_def)
  with build_dataset_length show "length (inputs (dataset m)) = nat (int (length text) - ctx)"
    by blast
qed

lemma full_batch_step_elements:
  assumes wf: "wf_model m"
  defines "n \<equiv> length (inputs (dataset m))"
  shows "\<forall>i<length (vocab m). \<forall>j<nat (embed_dim m).
           E (full_batch_step m) ! i ! j =
           E m ! i ! j - learning_rate m * ((\<Sum>q<n. grad_E (sample_gradient m q) ! i ! j) / real n)"
    and "\<forall>i<nat (hidden_dim m). \<forall>j<nat (context_size m * embed_dim m).
           W1 (full_batch_step m) ! i ! j =
           W1 m ! i ! j - learning_rate m * ((\<Sum>q<n. grad_W1 (sample_gradient m q) ! i ! j) / real n)"
    and "\<forall>i<nat (hidden_dim m).
           b1 (full_batch_step m) ! i =
           b1 m ! i - learning_rate m * ((\<Sum>q<n. grad_b1 (sample_gradient m q) ! i) / real n)"
    and "\<forall>i<length (vocab m). \<forall>j<nat (hidden_dim m).
           W2 (full_batch_step m) ! i ! j =
           W2 m ! i ! j - learning_rate m * ((\<Sum>q<n. grad_W2 (sample_gradient m q) ! i ! j) / real n)"
    and "\<forall>i<length (vocab m).
           b2 (full_batch_step m) ! i =
           b2 m ! i - learning_rate m * ((\<Sum>q<n. grad_b2 (sample_gradient m q) ! i) / real n)"
proof -
  let ?a = "mean_gradient m"
  let ?f = "\<lambda>p g. p - learning_rate m * g"
  from wf have sh: "mat_shape (E m) (length (vocab m)) (nat (embed_dim m))"
    "mat_shape (W1 m) (nat (hidden_dim m)) (nat (context_size m * embed_dim m))"
    "length (b1 m) = nat (hidden_dim m)"
    "mat_shape (W2 m) (length (vocab m)) (nat (hidden_dim m))"
    "length (b2 m) = length (vocab m)"
    by (simp_all add: wf_model_def)
  have p: "E (full_batch_step m) = map2 (map2 ?f) (E m) (grad_E ?a)"
    "W1 (full_batch_step m) = map2 (map2 ?f) (W1 m) (grad_W1 ?a)"
    "b1 (full_batch_step m) = map2 ?f (b1 m) (grad_b1 ?a)"
    "W2 (full_batch_step m) = map2 (map2 ?f) (W2 m) (grad_W2 ?a)"
    "b2 (full_batch_step m) = map2 ?f (b2 m) (grad_b2 ?a)"
    by (simp_all add: full_batch_step_def Let_def)
  show "\<forall>i<length (vocab m). \<forall>j<nat (embed_dim m).
           E (full_batch_step m) ! i ! j =
           E m ! i ! j - learning_rate m * ((\<Sum>q<n. grad_E (sample_gradient m q) ! i ! j) / real n)"
    unfolding p map2_mat_index [OF sh(1) mean_gradient_shape(1)] n_def
    by (simp add: mean_gradient_sel)
  show "\<forall>i<nat (hidden_dim m). \<forall>j<nat (context_size m * embed_dim m).
           W1 (full_batch_step m) ! i ! j =
           W1 m ! i ! j - learning_rate m * ((\<Sum>q<n. grad_W1 (sample_gradient m q) ! i ! j) / real n)"
    unfolding p map2_mat_index [OF sh(2) mean_gradient_shape(2)] n_def
    by (simp add: mean_gradient_sel)
  show "\<forall>i<nat (hidden_dim m).
           b1 (full_batch_step m) ! i =
           b1 m ! i - learning_rate m * ((\<Sum>q<n. grad_b1 (sample_gradient m q) ! i) / real n)"
    unfolding p map2_vec_index [OF sh(3) mean_gradient_shape(3)] n_def
    by (simp add: mean_gradient_sel)
  show "\<forall>i<length (vocab m). \<forall>j<nat (hidden_dim m).
           W2 (full_batch_step m) ! i ! j =
           W2 m ! i ! j - learning_rate m * ((\<Sum>q<n. grad_W2 (sample_gradient m q) ! i ! j) / real n)"
    unfolding p map2_mat_index [OF sh(4) mean_gradient_shape(4)] n_def
    by (simp add: mean_gradient_sel)
  show "\<forall>i<length (vocab m).
           b2 (full_batch_step m) ! i =
           b2 m ! i - learning_rate m * ((\<Sum>q<n. grad_b2 (sample_gradient m q) ! i) / real n)"
    unfolding p map2_vec_index [OF sh(5) mean_gradient_shape(5)] n_def
    by (simp add: mean_gradient_sel)
qed

text \<open>
  Claim C2, as the code has it. For a well-formed model with a non-empty dataset and a
  non-zero \<^verbatim>\<open>report_every\<close>, \<^verbatim>\<open>train\<close> returns the model obtained by applying the
  full-batch step \<^verbatim>\<open>epochs\<close> times in sequence (no step for \<open>epochs \<le> 0\<close>), each step at
  the parameters the previous one left. One pass of the epoch loop is one full-batch
  step: every element \<open>p\<close> of \<^verbatim>\<open>E\<close>, \<^verbatim>\<open>W1\<close>, \<^verbatim>\<open>b1\<close>, \<^verbatim>\<open>W2\<close>, \<^verbatim>\<open>b2\<close> becomes \<open>p\<close> minus
  \<^verbatim>\<open>learning_rate\<close> times the sum over all dataset pairs of the corresponding element of
  the per-sample gradient, divided by the number of pairs; the per-sample gradient of
  pair \<open>q\<close> is what \<^verbatim>\<open>_backward\<close> returns on the cache of \<^verbatim>\<open>_forward\<close> at the pre-update
  parameters. (For \<^verbatim>\<open>report_every = 0\<close> the expression \<^verbatim>\<open>epoch % report_every\<close> raises
  \<^verbatim>\<open>ZeroDivisionError\<close> at the end of the first epoch.)
\<close>

theorem train_full_batch_steps:
  assumes "wf_model m" and "inputs (dataset m) \<noteq> []" and "report_every \<noteq> 0"
  defines "n \<equiv> length (inputs (dataset m))"
  shows "train m epochs report_every = Inr ((full_batch_step ^^ nat epochs) m) \<and>
         (\<forall>k. wf_model ((full_batch_step ^^ k) m) \<and>
              dataset ((full_batch_step ^^ k) m) = dataset m) \<and>
         (\<exists>l. train_epoch m = Inr (full_batch_step m, l)) \<and>
         (\<forall>q<n. \<exists>ps c. forward m (inputs (dataset m) ! q) = Inr (ps, c) \<and>
                  backward m c (targets (dataset m) ! q) = Inr (sample_gradient m q)) \<and>
         (\<forall>i<length (vocab m). \<forall>j<nat (embed_dim m).
           E (full_batch_step m) ! i ! j =
           E m ! i ! j - learning_rate m * ((\<Sum>q<n. grad_E (sample_gradient m q) ! i ! j) / real n)) \<and>
         (\<forall>i<nat (hidden_dim m). \<forall>j<nat (context_size m * embed_dim m).
           W1 (full_batch_step m) ! i ! j =
           W1 m ! i ! j - learning_rate m * ((\<Sum>q<n. grad_W1 (sample_gradient m q) ! i ! j) / real n)) \<and>
         (\<forall>i<nat (hidden_dim m).
           b1 (full_batch_step m) ! i =
           b1 m ! i - learning_rate m * ((\<Sum>q<n. grad_b1 (sample_gradient m q) ! i) / real n)) \<and>
         (\<forall>i<length (vocab m). \<forall>j<nat (hidden_dim m).
           W2 (full_batch_step m) ! i ! j =
           W2 m ! i ! j - learning_rate m * ((\<Sum>q<n. grad_W2 (sample_gradient m q) ! i ! j) / real n)) \<and>
         (\<forall>i<length (vocab m).
           b2 (full_batch_step m) ! i =
           b2 m ! i - learning_rate m * ((\<Sum>q<n. grad_b2 (sample_gradient m q) ! i) / real n))"
proof -
  have 1: "train m epochs report_every = Inr ((full_batch_step ^^ nat epochs) m)"
    by (rule train_Inr [OF assms(1-3)])
  have 2: "\<forall>k. wf_model ((full_batch_step ^^ k) m) \<and>
              dataset ((full_batch_step ^^ k) m) = dataset m"
    using funpow_step_inv [OF assms(1)] by blast
  have 3: "\<exists>l. train_epoch m = Inr (full_batch_step m, l)"
    by (rule train_epoch_Inr [OF assms(1,2)])
  have 4: "\<forall>q<n. \<exists>ps c. forward m (inputs (dataset m) ! q) = Inr (ps, c) \<and>
                  backward m c (targets (dataset m) ! q) = Inr (sample_gradient m q)"
    unfolding n_def using sample_gradient_backward(1) [OF assms(1)] by blast
  note e = full_batch_step_elements [OF assms(1), folded n_def]
  from 1 2 3 4 e show ?thesis by (intro conjI)
qed

theorem train_full_batch_steps_witness:
  "wf_model abc_model \<and> inputs (dataset abc_model) \<noteq> [] \<and> (20 :: int) \<noteq> 0 \<and>
   train abc_model 2 20 = Inr (full_batch_step (full_batch_step abc_model))"
proof -
  have ne: "inputs (dataset abc_model) \<noteq> []" by (simp add: abc_model_def)
  have r: "(20 :: int) \<noteq> 0" by simp
  from train_full_batch_steps [OF wf_abc_model ne r, of 2]
  have "train abc_model 2 20 = Inr ((full_batch_step ^^ nat 2) abc_model)" by blast
  moreover have "(full_batch_step ^^ nat 2) abc_model = full_batch_step (full_batch_step abc_model)"
    by (simp add: numeral_2_eq_2)
  ultimately show ?thesis using wf_abc_model ne by simp
qed

theorem train_report_every_zero_counterexample:
  "inputs (dataset abc_model) \<noteq> [] \<and> (0 :: int) < 2 \<and>
   train abc_model 2 0 = Inl ZeroDivisionError"
proof -
  have ne: "inputs (dataset abc_model) \<noteq> []" by (simp add: abc_model_def)
  from train_epoch_Inr [OF wf_abc_model ne] obtain l where
    e: "train_epoch abc_model = Inr (full_batch_step abc_model, l)" by blast
  have u: "[1..2 :: int] = 1 # [2..2]" by (simp add: upto.simps)
  have "train abc_model 2 0 = Inl ZeroDivisionError"
    unfolding train_def u by (simp add: e train_report_def)
  with ne show ?thesis by simp
qed

text \<open>
  Claim C10. A model that the constructor returns has \<open>len(text) - context \<ge> 1\<close> dataset
  pairs, so dividing by the number of pairs (in \<^verbatim>\<open>loss\<close>, and as \<^verbatim>\<open>1.0 / num_samples\<close> in
  \<^verbatim>\<open>train\<close>) never divides by zero. For a non-negative \<^verbatim>\<open>context\<close>, \<^verbatim>\<open>loss\<close> and the epoch
  body of \<^verbatim>\<open>train\<close>, which contain these divisions, return.
\<close>

theorem dataset_nonempty_divisions:
  assumes "construct text ctx edim hdim lr rnd = Inr m"
  defines "n \<equiv> length (inputs (dataset m))"
  shows "1 \<le> n \<and> int n = int (length text) - ctx \<and>
         (\<forall>x. truediv x (real n) = Inr (x / real n)) \<and>
         (0 \<le> ctx \<longrightarrow> (\<exists>l. loss m = Inr l) \<and> (\<exists>m' l. train_epoch m = Inr (m', l)))"
proof -
  note c = construct_dataset_length [OF assms(1)]
  from c have n: "1 \<le> n" "int n = int (length text) - ctx" by (simp_all add: n_def)
  then have d: "\<forall>x. truediv x (real n) = Inr (x / real n)" by (simp add: truediv_def)
  have t: "(\<exists>l. loss m = Inr l) \<and> (\<exists>m' l. train_epoch m = Inr (m', l))" if "0 \<le> ctx"
  proof -
    from construct_wf [OF that assms(1)] have wf: "wf_model m" .
    from n(1) have ne: "inputs (dataset m) \<noteq> []" by (auto simp add: n_def)
    from loss_Inr [OF wf ne] train_epoch_Inr [OF wf ne] show ?thesis by blast
  qed
  from n d t show ?thesis by blast
qed

theorem dataset_nonempty_divisions_witness:
  "construct ''abcabcabc'' 2 3 6 (3 / 10) (\<lambda>_. 1 / 2) = Inr abc_model \<and>
   length (inputs (dataset abc_model)) = 7 \<and>
   truediv 1 (real (length (inputs (dataset abc_model)))) = Inr (1 / 7) \<and>
   (\<exists>l. loss abc_model = Inr l) \<and> (\<exists>m' l. train_epoch abc_model = Inr (m', l))"
proof -
  note t = dataset_nonempty_divisions [OF construct_abc]
  have 7: "length (inputs (dataset abc_model)) = 7" by (simp add: abc_model_def)
  from t have "truediv 1 (real (length (inputs (dataset abc_model)))) =
               Inr (1 / real (length (inputs (dataset abc_model))))" by blast
  then have d: "truediv 1 (real (length (inputs (dataset abc_model)))) = Inr (1 / 7)"
    unfolding 7 by simp
  from t have "(\<exists>l. loss abc_model = Inr l) \<and> (\<exists>m' l. train_epoch abc_model = Inr (m', l))"
    by simp
  with construct_abc 7 d show ?thesis by blast
qed

end
